theory Spec2Isabelle
  imports Main "HOL-Library.List_Lexorder"
begin

section \<open>Text\<close>

text \<open>
  A Python \<open>str\<close> is a sequence of Unicode code points, and \<open>len\<close>, slicing,
  \<open>strip\<close> and the \<open>re\<close> module all work on code points. A code point is a natural
  number here; ASCII literals are written through \<open>ustr_of\<close>.
\<close>

type_synonym uchar = nat
type_synonym ustr = "uchar list"

definition ustr_of :: "string \<Rightarrow> ustr" where
  "ustr_of s = map of_char s"

text \<open>
  \<open>str.isspace\<close> on one code point, which is also the class \<open>\s\<close> of a \<open>str\<close>
  pattern: U+0009..U+000D, U+001C..U+0020, U+0085, U+00A0, U+1680, U+2000..U+200A,
  U+2028, U+2029, U+202F, U+205F, U+3000.
\<close>

definition isspace :: "uchar \<Rightarrow> bool" where
  "isspace c \<longleftrightarrow>
     (9 \<le> c \<and> c \<le> 13) \<or> (28 \<le> c \<and> c \<le> 32) \<or> c = 133 \<or> c = 160 \<or> c = 5760 \<or>
     (8192 \<le> c \<and> c \<le> 8202) \<or> c = 8232 \<or> c = 8233 \<or> c = 8239 \<or> c = 8287 \<or>
     c = 12288"

text \<open>\<open>str.strip()\<close> without argument: leading and trailing whitespace removed.\<close>

definition strip :: "ustr \<Rightarrow> ustr" where
  "strip s = rev (dropWhile isspace (rev (dropWhile isspace s)))"

section \<open>The two line patterns of \<open>AikenParser\<close>\<close>

text \<open>
  \<open>option_pattern = re.compile(r"^([A-Z])[\)\.]\s+(.+)$")\<close> and
  \<open>answer_pattern = re.compile(r"^ANSWER:\s*([A-Z])$", re.IGNORECASE)\<close>.
  Each \<open>..._match\<close> below is \<open>pattern.match(line)\<close>: \<open>None\<close> when the pattern does
  not match, otherwise the captured groups. \<open>.\<close> matches every code point but the
  newline U+000A, and \<open>$\<close> matches at the end of the string and before a newline that
  ends the string.
\<close>

definition class_AZ :: "uchar \<Rightarrow> bool" where
  "class_AZ c \<longleftrightarrow> 65 \<le> c \<and> c \<le> 90"

definition class_delim :: "uchar \<Rightarrow> bool" where
  "class_delim c \<longleftrightarrow> c = 41 \<or> c = 46"

text \<open>
  After the letter and the delimiter, \<open>\s+\<close> takes the longest run of whitespace and
  \<open>(.+)$\<close> the remainder up to the end. When the remainder is empty the matcher backtracks:
  \<open>\s+\<close> gives back whitespace until \<open>(.+)$\<close> matches, which it does on a single
  non-newline whitespace character in front of the end.
\<close>

definition option_pattern_match :: "ustr \<Rightarrow> (ustr \<times> ustr) option" where
  "option_pattern_match s =
     (case s of
        l # d # rest \<Rightarrow>
          if class_AZ l \<and> class_delim d then
            (let ws = takeWhile isspace rest; r = dropWhile isspace rest in
             if ws = [] then None
             else if r \<noteq> [] then
               (let g = takeWhile (\<lambda>c. c \<noteq> 10) r; r' = dropWhile (\<lambda>c. c \<noteq> 10) r in
                if r' = [] \<or> r' = [10] then Some ([l], g) else None)
             else
               (let body = (if last ws = 10 then butlast ws else ws) in
                if 2 \<le> length body \<and> last body \<noteq> 10 then Some ([l], [last body])
                else None))
          else None
      | _ \<Rightarrow> None)"

text \<open>
  Under \<open>re.IGNORECASE\<close> on a \<open>str\<close> pattern, a cased literal matches the code points
  whose lowercase is the literal's lowercase, plus the case-folding equivalents the
  \<open>re\<close> module adds (dotless i U+0131 for \<open>i\<close>, long s U+017F for \<open>s\<close>); the code points
  outside ASCII whose lowercase is an ASCII letter are U+0130 (\<open>i\<close>) and U+212A (\<open>k\<close>).
\<close>

definition literal_ignorecase :: "uchar \<Rightarrow> uchar \<Rightarrow> bool" where
  "literal_ignorecase p c \<longleftrightarrow>
     (if class_AZ p then
        c = p \<or> c = p + 32 \<or> (p = 73 \<and> (c = 304 \<or> c = 305)) \<or> (p = 83 \<and> c = 383) \<or>
        (p = 75 \<and> c = 8490)
      else c = p)"

text \<open>
  \<open>[A-Z]\<close> under \<open>re.IGNORECASE\<close>: the 52 ASCII letters and U+0130, U+0131, U+017F,
  U+212A.
\<close>

definition class_AZ_ignorecase :: "uchar \<Rightarrow> bool" where
  "class_AZ_ignorecase c \<longleftrightarrow>
     (65 \<le> c \<and> c \<le> 90) \<or> (97 \<le> c \<and> c \<le> 122) \<or> c = 304 \<or> c = 305 \<or> c = 383 \<or>
     c = 8490"

fun match_literals :: "ustr \<Rightarrow> ustr \<Rightarrow> ustr option" where
  "match_literals [] s = Some s"
| "match_literals (p # ps) [] = None"
| "match_literals (p # ps) (c # cs) =
     (if literal_ignorecase p c then match_literals ps cs else None)"

definition answer_pattern_match :: "ustr \<Rightarrow> ustr option" where
  "answer_pattern_match s =
     (case match_literals (ustr_of ''ANSWER:'') s of
        None \<Rightarrow> None
      | Some rest \<Rightarrow>
          (case dropWhile isspace rest of
             [c] \<Rightarrow> if class_AZ_ignorecase c then Some [c] else None
           | [c, e] \<Rightarrow> if class_AZ_ignorecase c \<and> e = 10 then Some [c] else None
           | _ \<Rightarrow> None))"

text \<open>
  \<open>str.upper()\<close> on the code points group 1 of \<open>answer_pattern\<close> can hold: the ASCII
  lowercase letters go to uppercase, U+0131 to \<open>I\<close>, U+017F to \<open>S\<close>; the ASCII uppercase
  letters, U+0130 and U+212A are their own uppercase.
\<close>

definition upper_letter :: "uchar \<Rightarrow> uchar" where
  "upper_letter c =
     (if 97 \<le> c \<and> c \<le> 122 then c - 32
      else if c = 305 then 73
      else if c = 383 then 83
      else c)"

definition upper :: "ustr \<Rightarrow> ustr" where
  "upper g = map upper_letter g"

section \<open>Dictionaries\<close>

text \<open>
  A \<open>Dict[str, str]\<close> keeps its keys in insertion order; assigning to a key that is
  present replaces the value in place.
\<close>

type_synonym dict = "(ustr \<times> ustr) list"

fun dict_set :: "('k \<times> 'v) list \<Rightarrow> 'k \<Rightarrow> 'v \<Rightarrow> ('k \<times> 'v) list" where
  "dict_set [] k v = [(k, v)]"
| "dict_set ((k', v') # d) k v =
     (if k' = k then (k, v) # d else (k', v') # dict_set d k v)"

definition keys :: "dict \<Rightarrow> ustr list" where
  "keys d = map fst d"

definition dict_in :: "ustr \<Rightarrow> dict \<Rightarrow> bool" where
  "dict_in k d \<longleftrightarrow> k \<in> set (keys d)"

section \<open>\<open>Question\<close>\<close>

datatype value_error = EmptyText | NoOptions | AnswerNotInOptions | CannotRead

datatype error =
    FileNotFoundError
  | ValueError value_error
  | KeyError
  | UnicodeEncodeError
  | ExpatError
  | OtherException

record Question =
  qtext :: ustr
  options :: dict
  answer :: ustr

text \<open>
  The constructor the dataclass generates stores the three fields and calls
  \<open>__post_init__\<close>, which raises \<open>ValueError\<close> on the first check that fails.
\<close>

definition Question_init :: "ustr \<Rightarrow> dict \<Rightarrow> ustr \<Rightarrow> error + Question" where
  "Question_init t os a =
     (if strip t = [] then Inl (ValueError EmptyText)
      else if os = [] then Inl (ValueError NoOptions)
      else if \<not> dict_in a os then Inl (ValueError AnswerNotInOptions)
      else Inr \<lparr>qtext = t, options = os, answer = a\<rparr>)"

text \<open>
  The dataclass is declared without \<open>frozen=True\<close>: assigning to a field of an
  instance stores the value and runs no validation.
\<close>

definition set_qtext :: "Question \<Rightarrow> ustr \<Rightarrow> Question" where
  "set_qtext q v = q\<lparr>qtext := v\<rparr>"

definition set_options :: "Question \<Rightarrow> dict \<Rightarrow> Question" where
  "set_options q v = q\<lparr>options := v\<rparr>"

definition set_answer :: "Question \<Rightarrow> ustr \<Rightarrow> Question" where
  "set_answer q v = q\<lparr>answer := v\<rparr>"

text \<open>The three conditions \<open>__post_init__\<close> checks, as a predicate on an instance.\<close>

definition invariant :: "Question \<Rightarrow> bool" where
  "invariant q \<longleftrightarrow> strip (qtext q) \<noteq> [] \<and> options q \<noteq> [] \<and> dict_in (answer q) (options q)"

section \<open>\<open>AikenParser.parse_file\<close>\<close>

datatype level = DEBUG | INFO | WARNING | ERROR

datatype message =
    Parsing_file
  | Encoding_fallback
  | Answer_without_question nat
  | Answer_without_options nat
  | Question_parsed nat
  | Question_error nat error
  | Incomplete_at_end
  | Parse_done nat

record pstate =
  questions :: "Question list"
  current_question_text :: ustr
  current_options :: dict
  line_number :: nat
  log :: "(level \<times> message) list"

definition init :: "(level \<times> message) list \<Rightarrow> pstate" where
  "init lg = \<lparr>questions = [], current_question_text = [], current_options = [],
              line_number = 0, log = lg\<rparr>"

text \<open>One iteration of \<open>for line in lines\<close>.\<close>

definition step :: "pstate \<Rightarrow> ustr \<Rightarrow> pstate" where
  "step s0 line =
     (let s = s0\<lparr>line_number := line_number s0 + 1\<rparr> in
      if line = [] then s
      else
        (case answer_pattern_match line of
           Some g \<Rightarrow>
             (let a = upper g in
              if current_question_text s = [] then
                s\<lparr>log := log s @ [(WARNING, Answer_without_question (line_number s))]\<rparr>
              else if current_options s = [] then
                s\<lparr>log := log s @ [(WARNING, Answer_without_options (line_number s))]\<rparr>
              else
                (case Question_init (strip (current_question_text s)) (current_options s) a of
                   Inr q \<Rightarrow>
                     s\<lparr>questions := questions s @ [q],
                       log := log s @ [(DEBUG, Question_parsed (length (questions s) + 1))],
                       current_question_text := [], current_options := []\<rparr>
                 | Inl e \<Rightarrow>
                     s\<lparr>log := log s @ [(ERROR, Question_error (line_number s) e)],
                       current_question_text := [], current_options := []\<rparr>))
         | None \<Rightarrow>
             (case option_pattern_match line of
                Some (option_letter, option_text) \<Rightarrow>
                  s\<lparr>current_options := dict_set (current_options s) option_letter option_text\<rparr>
              | None \<Rightarrow>
                  if current_question_text s \<noteq> [] then
                    s\<lparr>current_question_text := current_question_text s @ [32] @ line\<rparr>
                  else s\<lparr>current_question_text := line\<rparr>)))"

definition scan :: "pstate \<Rightarrow> ustr list \<Rightarrow> pstate" where
  "scan s lines = foldl step s lines"

text \<open>The code after the loop: the warning for an open question, the closing message.\<close>

definition finish :: "pstate \<Rightarrow> pstate" where
  "finish s =
     (let s1 = (if current_question_text s \<noteq> [] \<or> current_options s \<noteq> []
                then s\<lparr>log := log s @ [(WARNING, Incomplete_at_end)]\<rparr> else s)
      in s1\<lparr>log := log s1 @ [(INFO, Parse_done (length (questions s1)))]\<rparr>)"

definition run_lines :: "(level \<times> message) list \<Rightarrow> ustr list \<Rightarrow> pstate" where
  "run_lines lg lines = finish (scan (init lg) lines)"

definition parse_lines :: "ustr list \<Rightarrow> Question list" where
  "parse_lines lines = questions (run_lines [] lines)"

text \<open>
  The file system is the environment of \<open>parse_file\<close>: whether the path exists, and what
  \<open>open(path, "r", encoding=...)\<close> followed by \<open>readlines()\<close> gives: the lines, a
  \<open>UnicodeDecodeError\<close>, or another exception.
\<close>

type_synonym path = ustr

datatype encoding = UTF8 | LATIN1

datatype read_outcome = Lines "ustr list" | Raises_UnicodeDecodeError | Raises_other

record world =
  path_exists :: "path \<Rightarrow> bool"
  open_readlines :: "path \<Rightarrow> encoding \<Rightarrow> read_outcome"

text \<open>
  The result is the returned list or the exception that leaves \<open>parse_file\<close>, beside the
  messages logged. Only \<open>UnicodeDecodeError\<close> starts the second attempt; in the second
  attempt every exception becomes a \<open>ValueError\<close>.
\<close>

definition parse_file :: "world \<Rightarrow> path \<Rightarrow> (error + Question list) \<times> (level \<times> message) list" where
  "parse_file w file_path =
     (if \<not> path_exists w file_path then (Inl FileNotFoundError, [])
      else
        (let lg = [(INFO, Parsing_file)] in
         case open_readlines w file_path UTF8 of
           Lines ls \<Rightarrow>
             (let s = run_lines lg (map strip ls) in (Inr (questions s), log s))
         | Raises_other \<Rightarrow> (Inl OtherException, lg)
         | Raises_UnicodeDecodeError \<Rightarrow>
             (let lg2 = lg @ [(ERROR, Encoding_fallback)] in
              case open_readlines w file_path LATIN1 of
                Lines ls \<Rightarrow>
                  (let s = run_lines lg2 (map strip ls) in (Inr (questions s), log s))
              | _ \<Rightarrow> (Inl (ValueError CannotRead), lg2))))"

text \<open>
  The loop body and the loop without the line counter and the log: the questions so far,
  the accumulated text and the accumulated options. It is the view of \<open>step\<close> that the
  statements about the returned list need.
\<close>

type_synonym core = "Question list \<times> ustr \<times> dict"

definition core :: "pstate \<Rightarrow> core" where
  "core s = (questions s, current_question_text s, current_options s)"

fun cstep :: "core \<Rightarrow> ustr \<Rightarrow> core" where
  "cstep (qs, t, os) line =
     (if line = [] then (qs, t, os)
      else
        (case answer_pattern_match line of
           Some g \<Rightarrow>
             if t = [] \<or> os = [] then (qs, t, os)
             else
               (case Question_init (strip t) os (upper g) of
                  Inr q \<Rightarrow> (qs @ [q], [], [])
                | Inl e \<Rightarrow> (qs, [], []))
         | None \<Rightarrow>
             (case option_pattern_match line of
                Some (option_letter, option_text) \<Rightarrow> (qs, t, dict_set os option_letter option_text)
              | None \<Rightarrow> (qs, if t \<noteq> [] then t @ [32] @ line else line, os))))"

section \<open>\<open>QTIGenerator\<close>\<close>

text \<open>
  An \<open>xml.etree.ElementTree.Element\<close>: tag, attributes in insertion order, text (empty
  when the source leaves it unset) and children. No element of this program has a tail.
\<close>

datatype elem = Element (tag: ustr) (attrib: "(ustr \<times> ustr) list") (etext: ustr)
  (children: "elem list")

text \<open>
  \<open>uuid.uuid4().hex\<close> is random: the \<open>k\<close>-th call of a run returns \<open>rnd k\<close>, and every
  function that draws identifiers takes the number of calls made so far and returns the
  new count.
\<close>

type_synonym uuid_source = "nat \<Rightarrow> ustr"

definition qti_ns :: ustr where
  "qti_ns = ustr_of ''http://www.imsglobal.org/xsd/imsqti_v2p1''"

definition imscp_ns :: ustr where
  "imscp_ns = ustr_of ''http://www.imsglobal.org/xsd/imscp_v1p1''"

subsection \<open>\<open>_safe_title\<close>\<close>

definition class_unsafe :: "uchar \<Rightarrow> bool" where
  "class_unsafe c \<longleftrightarrow> c = 60 \<or> c = 62 \<or> c = 38 \<or> c = 34"

text \<open>\<open>re.sub(r'[<>&"]', "", text)\<close>: every match of the class is replaced by nothing.\<close>

fun re_sub_unsafe :: "ustr \<Rightarrow> ustr" where
  "re_sub_unsafe [] = []"
| "re_sub_unsafe (c # cs) = (if class_unsafe c then re_sub_unsafe cs else c # re_sub_unsafe cs)"

text \<open>
  The slice \<open>s[:m]\<close> for a Python integer \<open>m\<close>: the first \<open>m\<close> code points, and for a
  negative \<open>m\<close> all but the last \<open>-m\<close>.
\<close>

definition slice_to :: "ustr \<Rightarrow> int \<Rightarrow> ustr" where
  "slice_to s m = (if 0 \<le> m then take (nat m) s else take (nat (int (length s) + m)) s)"

definition placeholder :: ustr where
  "placeholder = ustr_of ''Pregunta sin t'' @ [237] @ ustr_of ''tulo''"

definition safe_title :: "ustr \<Rightarrow> int \<Rightarrow> ustr" where
  "safe_title txt max_length =
     (let safe_text = re_sub_unsafe txt;
          safe_text2 = (if int (length safe_text) > max_length
                        then slice_to safe_text max_length @ ustr_of ''...''
                        else safe_text)
      in if safe_text2 = [] then placeholder else safe_text2)"

subsection \<open>\<open>generate_item_xml\<close>\<close>

text \<open>
  The dictionary comprehension \<open>option_ids\<close>: one \<open>uuid4\<close> call per key, in the order
  of the keys.
\<close>

fun option_ids :: "uuid_source \<Rightarrow> nat \<Rightarrow> ustr list \<Rightarrow> dict \<Rightarrow> dict" where
  "option_ids rnd n [] d = d"
| "option_ids rnd n (letter # ls) d =
     option_ids rnd (n + 1) ls
       (dict_set d letter (ustr_of ''Choice_'' @ letter @ ustr_of ''_'' @ take 8 (rnd n)))"

text \<open>
  The loop over \<open>sorted(question.options.keys())\<close>; \<open>sorted\<close> orders strings by code
  points, which is the lexicographic order of lists. A subscript on a missing key
  raises \<open>KeyError\<close>.
\<close>

fun simple_choices :: "dict \<Rightarrow> dict \<Rightarrow> ustr list \<Rightarrow> error + elem list" where
  "simple_choices os ids [] = Inr []"
| "simple_choices os ids (letter # ls) =
     (case map_of os letter of
        None \<Rightarrow> Inl KeyError
      | Some txt \<Rightarrow>
          (case map_of ids letter of
             None \<Rightarrow> Inl KeyError
           | Some i \<Rightarrow>
               (case simple_choices os ids ls of
                  Inl e \<Rightarrow> Inl e
                | Inr es \<Rightarrow> Inr (Element (ustr_of ''simpleChoice'') [(ustr_of ''identifier'', i)] txt [] # es))))"

text \<open>
  The element tree \<open>generate_item_xml\<close> builds before it serialises it.
  \<open>self.qti_ns.replace('xsd/', 'xsd/')\<close> replaces a substring by itself and is \<open>qti_ns\<close>.
\<close>

definition correct_response :: "Question \<Rightarrow> dict \<Rightarrow> elem" where
  "correct_response question ids =
     Element (ustr_of ''correctResponse'') [] []
       (case map_of ids (answer question) of
          Some i \<Rightarrow> [Element (ustr_of ''value'') [] i []]
        | None \<Rightarrow> [])"

definition response_processing :: elem where
  "response_processing =
     Element (ustr_of ''responseProcessing'')
       [(ustr_of ''template'',
         ustr_of ''http://www.imsglobal.org/question/qti_v2p1/rptemplates/match_correct'')] [] []"

definition item_element :: "uuid_source \<Rightarrow> nat \<Rightarrow> Question \<Rightarrow> ustr \<Rightarrow> error + elem" where
  "item_element rnd n question item_id =
     (let ids = option_ids rnd n (keys (options question)) [] in
      case simple_choices (options question) ids (sort (keys (options question))) of
        Inl e \<Rightarrow> Inl e
      | Inr choices \<Rightarrow>
          Inr (Element (ustr_of ''assessmentItem'')
            [(ustr_of ''xmlns'', qti_ns),
             (ustr_of ''xmlns:xsi'', ustr_of ''http://www.w3.org/2001/XMLSchema-instance''),
             (ustr_of ''xsi:schemaLocation'', qti_ns @ ustr_of '' '' @ qti_ns @ ustr_of ''.xsd''),
             (ustr_of ''identifier'', item_id),
             (ustr_of ''title'', safe_title (qtext question) 50),
             (ustr_of ''adaptive'', ustr_of ''false''),
             (ustr_of ''timeDependent'', ustr_of ''false'')]
            []
            [Element (ustr_of ''responseDeclaration'')
               [(ustr_of ''identifier'', ustr_of ''RESPONSE''),
                (ustr_of ''cardinality'', ustr_of ''single''),
                (ustr_of ''baseType'', ustr_of ''identifier'')]
               [] [correct_response question ids],
             Element (ustr_of ''outcomeDeclaration'')
               [(ustr_of ''identifier'', ustr_of ''SCORE''),
                (ustr_of ''cardinality'', ustr_of ''single''),
                (ustr_of ''baseType'', ustr_of ''float'')]
               []
               [Element (ustr_of ''defaultValue'') [] []
                  [Element (ustr_of ''value'') [] (ustr_of ''0'') []]],
             Element (ustr_of ''itemBody'') [] []
               [Element (ustr_of ''div'') [] []
                  [Element (ustr_of ''p'') [] (qtext question) []],
                Element (ustr_of ''choiceInteraction'')
                  [(ustr_of ''responseIdentifier'', ustr_of ''RESPONSE''),
                   (ustr_of ''shuffle'', ustr_of ''true''),
                   (ustr_of ''maxChoices'', ustr_of ''1'')]
                  []
                  (Element (ustr_of ''prompt'') [] (ustr_of ''Selecciona la respuesta correcta:'') []
                   # choices)],
             response_processing]))"

subsection \<open>Serialising and reading back\<close>

text \<open>
  \<open>ET.tostring(root, encoding="unicode")\<close>: text is escaped by \<open>_escape_cdata\<close>,
  attribute values by \<open>_escape_attrib\<close>; an element without text and children is
  written in the short form. Every other code point is written as it is.
\<close>

definition escape_cdata_char :: "uchar \<Rightarrow> ustr" where
  "escape_cdata_char c =
     (if c = 38 then ustr_of ''&amp;''
      else if c = 60 then ustr_of ''&lt;''
      else if c = 62 then ustr_of ''&gt;''
      else [c])"

definition escape_cdata :: "ustr \<Rightarrow> ustr" where
  "escape_cdata s = concat (map escape_cdata_char s)"

definition escape_attrib_char :: "uchar \<Rightarrow> ustr" where
  "escape_attrib_char c =
     (if c = 38 then ustr_of ''&amp;''
      else if c = 60 then ustr_of ''&lt;''
      else if c = 62 then ustr_of ''&gt;''
      else if c = 34 then ustr_of ''&quot;''
      else if c = 13 then ustr_of ''&#13;''
      else if c = 10 then ustr_of ''&#10;''
      else if c = 9 then ustr_of ''&#09;''
      else [c])"

definition escape_attrib :: "ustr \<Rightarrow> ustr" where
  "escape_attrib s = concat (map escape_attrib_char s)"

definition attrib_tostring :: "ustr \<times> ustr \<Rightarrow> ustr" where
  "attrib_tostring kv = [32] @ fst kv @ [61, 34] @ escape_attrib (snd kv) @ [34]"

fun ET_tostring :: "elem \<Rightarrow> ustr" where
  "ET_tostring (Element tg attrs txt cs) =
     [60] @ tg @ concat (map attrib_tostring attrs) @
     (if txt \<noteq> [] \<or> cs \<noteq> [] then
        [62] @ escape_cdata txt @ concat (map ET_tostring cs) @ [60, 47] @ tg @ [62]
      else [32, 47, 62])"

text \<open>
  \<open>minidom.parseString(rough_string).toprettyxml(indent="  ")\<close>. The parser first
  encodes the string as UTF-8, which raises \<open>UnicodeEncodeError\<close> on a surrogate code
  point, and then rejects with \<open>ExpatError\<close> every code point outside the production
  \<open>Char\<close> of XML 1.0 (U+0009, U+000A, U+000D, U+0020..U+D7FF, U+E000..U+FFFD,
  U+10000..U+10FFFF). The serialisation of a tree whose tags and attribute names are the
  fixed ones of this program has no other way to be rejected. The text that
  \<open>toprettyxml\<close> prints is not spelled out: \<open>Pretty_of r\<close> is the pretty-printed
  document read from the serialisation \<open>r\<close>.
\<close>

definition surrogate :: "uchar \<Rightarrow> bool" where
  "surrogate c \<longleftrightarrow> 55296 \<le> c \<and> c \<le> 57343"

definition xml_Char :: "uchar \<Rightarrow> bool" where
  "xml_Char c \<longleftrightarrow>
     c = 9 \<or> c = 10 \<or> c = 13 \<or> (32 \<le> c \<and> c \<le> 55295) \<or> (57344 \<le> c \<and> c \<le> 65533) \<or>
     (65536 \<le> c \<and> c \<le> 1114111)"

datatype xml_output = Pretty_of ustr

definition reparse_pretty :: "ustr \<Rightarrow> error + xml_output" where
  "reparse_pretty rough_string =
     (if list_ex surrogate rough_string then Inl UnicodeEncodeError
      else if \<not> list_all xml_Char rough_string then Inl ExpatError
      else Inr (Pretty_of rough_string))"

text \<open>
  An element all of whose code points (tag, attribute names and values, text, and the
  same in every descendant) are \<open>Char\<close>s of XML.
\<close>

fun elem_ok :: "elem \<Rightarrow> bool" where
  "elem_ok (Element tg attrs txt cs) \<longleftrightarrow>
     list_all xml_Char tg \<and>
     list_all (\<lambda>kv. list_all xml_Char (fst kv) \<and> list_all xml_Char (snd kv)) attrs \<and>
     list_all xml_Char txt \<and> list_all elem_ok cs"

text \<open>A question whose text, option letters and option texts hold only \<open>Char\<close>s of XML.\<close>

definition question_chars_ok :: "Question \<Rightarrow> bool" where
  "question_chars_ok q \<longleftrightarrow>
     list_all xml_Char (qtext q) \<and>
     list_all (\<lambda>kv. list_all xml_Char (fst kv) \<and> list_all xml_Char (snd kv)) (options q)"

text \<open>
  \<open>generate_item_xml\<close> returns the document and the number of \<open>uuid4\<close> calls made so
  far, or the exception that leaves it.
\<close>

definition generate_item_xml ::
  "uuid_source \<Rightarrow> nat \<Rightarrow> Question \<Rightarrow> ustr \<Rightarrow> error + (xml_output \<times> nat)" where
  "generate_item_xml rnd n question item_id =
     (case item_element rnd n question item_id of
        Inl e \<Rightarrow> Inl e
      | Inr root \<Rightarrow>
          (case reparse_pretty (ET_tostring root) of
             Inl e \<Rightarrow> Inl e
           | Inr xml \<Rightarrow> Inr (xml, n + length (keys (options question)))))"

subsection \<open>\<open>generate_manifest\<close>\<close>

definition resource_element :: "ustr \<times> ustr \<Rightarrow> elem" where
  "resource_element r =
     Element (ustr_of ''resource'')
       [(ustr_of ''identifier'', ustr_of ''RES-'' @ fst r),
        (ustr_of ''type'', ustr_of ''imsqti_item_xmlv2p1''),
        (ustr_of ''href'', snd r)]
       []
       [Element (ustr_of ''file'') [(ustr_of ''href'', snd r)] [] []]"

definition manifest_element :: "uuid_source \<Rightarrow> nat \<Rightarrow> (ustr \<times> ustr) list \<Rightarrow> elem" where
  "manifest_element rnd n resources =
     Element (ustr_of ''manifest'')
       [(ustr_of ''xmlns'', imscp_ns),
        (ustr_of ''xmlns:imsmd'', ustr_of ''http://www.imsglobal.org/xsd/imsmd_v1p2''),
        (ustr_of ''xmlns:imsqti'', qti_ns),
        (ustr_of ''identifier'', ustr_of ''MANIFEST-'' @ rnd n),
        (ustr_of ''version'', ustr_of ''1.0'')]
       []
       [Element (ustr_of ''metadata'') [] []
          [Element (ustr_of ''schema'') [] (ustr_of ''IMS Content'') [],
           Element (ustr_of ''schemaversion'') [] (ustr_of ''1.1.3'') [],
           Element (ustr_of ''imsmd:lom'') [] []
             [Element (ustr_of ''imsmd:general'') [] []
                [Element (ustr_of ''imsmd:title'') [] []
                   [Element (ustr_of ''imsmd:langstring'') [(ustr_of ''xml:lang'', ustr_of ''es'')]
                      (ustr_of ''Cuestionario Aiken2QTI'') []]]]],
        Element (ustr_of ''organizations'') [] [] [],
        Element (ustr_of ''resources'') [] [] (map resource_element resources)]"

definition generate_manifest ::
  "uuid_source \<Rightarrow> nat \<Rightarrow> (ustr \<times> ustr) list \<Rightarrow> error + (xml_output \<times> nat)" where
  "generate_manifest rnd n resources =
     (case reparse_pretty (ET_tostring (manifest_element rnd n resources)) of
        Inl e \<Rightarrow> Inl e
      | Inr xml \<Rightarrow> Inr (xml, n + 1))"

section \<open>\<open>PackageBuilder\<close>\<close>

text \<open>
  \<open>f"{index:03d}"\<close>: the decimal digits of the index, padded with zeros on the left to
  a width of at least three.
\<close>

fun decimal :: "nat \<Rightarrow> ustr" where
  "decimal n = (if n < 10 then [48 + n] else decimal (n div 10) @ [48 + n mod 10])"

declare decimal.simps [simp del]

definition format_03d :: "nat \<Rightarrow> ustr" where
  "format_03d n = replicate (3 - length (decimal n)) 48 @ decimal n"

text \<open>
  The staging directory is a dictionary from file name to content: \<open>open(path, "w")\<close>
  creates the file or replaces its content. Failures of the disk that the arguments do
  not decide (permissions, a full disk while a document is written) are not part of the
  model.
\<close>

type_synonym directory = "(ustr \<times> xml_output) list"

text \<open>\<open>f"question_{index:03d}_{item_id}.xml"\<close>\<close>

definition question_filename :: "nat \<Rightarrow> ustr \<Rightarrow> ustr" where
  "question_filename index item_id =
     ustr_of ''question_'' @ format_03d index @ ustr_of ''_'' @ item_id @ ustr_of ''.xml''"

text \<open>
  The loop \<open>for index, question in enumerate(questions, 1)\<close>, with the directory and the
  list \<open>resources\<close> as they are before the iteration.
\<close>

fun build_items ::
  "uuid_source \<Rightarrow> nat \<Rightarrow> nat \<Rightarrow> Question list \<Rightarrow> directory \<Rightarrow> (ustr \<times> ustr) list \<Rightarrow>
   error + (directory \<times> (ustr \<times> ustr) list \<times> nat)" where
  "build_items rnd n index [] temp_dir resources = Inr (temp_dir, resources, n)"
| "build_items rnd n index (question # qs) temp_dir resources =
     (let item_id = ustr_of ''ITEM_'' @ rnd n;
          filename = question_filename index item_id
      in case generate_item_xml rnd (n + 1) question item_id of
           Inl e \<Rightarrow> Inl e
         | Inr (xml_content, n') \<Rightarrow>
             build_items rnd n' (index + 1) qs (dict_set temp_dir filename xml_content)
               (resources @ [(item_id, filename)]))"

definition endswith :: "ustr \<Rightarrow> ustr \<Rightarrow> bool" where
  "endswith s suffix \<longleftrightarrow>
     length suffix \<le> length s \<and> drop (length s - length suffix) s = suffix"

text \<open>
  The archive is written at \<open>output_dir / output_filename\<close>, and the staging directory
  \<open>temp_qti_build\<close> lies under \<open>output_dir\<close> as well. Where the path leads is the file
  system's (its directories and links, an absolute \<open>output_filename\<close>), so it is a
  parameter: \<open>zipfile.ZipFile(output_path, "w")\<close> raises (\<open>FileNotFoundError\<close> when the
  parent directory is missing), or it creates or truncates a file outside the staging
  directory, or one inside the staging directory, under the given entry name.
\<close>

datatype archive_place = Open_raises error | Outside_staging | Inside_staging ustr

text \<open>
  An archive inside the staging directory is one of the files \<open>rglob\<close> lists, and
  \<open>zipf.write\<close> copies it into itself while it grows. The copy ends when the reader
  reaches the end of what is on disk (as it does for a few questions); otherwise it runs
  until the file system refuses a write, with \<open>OSError\<close>. Which of the two happens is
  \<open>self_copy_ends\<close>.
\<close>

record disk =
  zip_open :: "ustr \<Rightarrow> archive_place"
  self_copy_ends :: bool

text \<open>
  A file of the staging directory as the archive sees it: a document, or the archive
  itself, whose bytes at the time of the copy are not spelled out.
\<close>

datatype file_content = Document xml_output | Archive_so_far

text \<open>
  The archive: its file name (relative to \<open>output_dir\<close>), one entry per file of the
  staging directory, and whether the archive lies in the staging directory. The order in
  which \<open>rglob\<close> lists the files is the file system's.
\<close>

record package =
  archive_name :: ustr
  entries :: "(ustr \<times> file_content) list"
  inside_staging :: bool

text \<open>The file name with \<open>.zip\<close> appended unless it ends with it.\<close>

definition zip_filename :: "ustr \<Rightarrow> ustr" where
  "zip_filename output_filename =
     (if \<not> endswith output_filename (ustr_of ''.zip'')
      then output_filename @ ustr_of ''.zip'' else output_filename)"

definition create_zip_package :: "disk \<Rightarrow> directory \<Rightarrow> ustr \<Rightarrow> error + package" where
  "create_zip_package fs temp_dir output_filename =
     (let output_path = zip_filename output_filename;
          staged = map (\<lambda>(name, xml). (name, Document xml)) temp_dir
      in case zip_open fs output_path of
           Open_raises e \<Rightarrow> Inl e
         | Outside_staging \<Rightarrow>
             Inr \<lparr>archive_name = output_path, entries = staged, inside_staging = False\<rparr>
         | Inside_staging entry \<Rightarrow>
             if self_copy_ends fs
             then Inr \<lparr>archive_name = output_path,
                       entries = dict_set staged entry Archive_so_far,
                       inside_staging = True\<rparr>
             else Inl OtherException)"

text \<open>
  \<open>shutil.rmtree(self.temp_dir)\<close> in the \<open>finally\<close> block, seen from the archive: a file
  written inside the staging directory is removed with it.
\<close>

definition cleanup_temp_directory :: "package \<Rightarrow> package option" where
  "cleanup_temp_directory pkg = (if inside_staging pkg then None else Some pkg)"

text \<open>
  \<open>build_package\<close> starts from an empty staging directory. An exception of a renderer or
  of the archive leaves it after the directory is removed. Otherwise the result is the
  returned path and the file found there after the call: \<open>None\<close> when the clean-up has
  removed it.
\<close>

definition build_package ::
  "disk \<Rightarrow> uuid_source \<Rightarrow> nat \<Rightarrow> Question list \<Rightarrow> ustr \<Rightarrow>
   error + (ustr \<times> package option)" where
  "build_package fs rnd n qs output_filename =
     (case build_items rnd n 1 qs [] [] of
        Inl e \<Rightarrow> Inl e
      | Inr (temp_dir, resources, n') \<Rightarrow>
          (case generate_manifest rnd n' resources of
             Inl e \<Rightarrow> Inl e
           | Inr (manifest_content, n'') \<Rightarrow>
               (case create_zip_package fs
                       (dict_set temp_dir (ustr_of ''imsmanifest.xml'') manifest_content)
                       output_filename of
                  Inl e \<Rightarrow> Inl e
                | Inr pkg \<Rightarrow> Inr (archive_name pkg, cleanup_temp_directory pkg))))"



section \<open>The scanner\<close>

declare cstep.simps [simp del]

text \<open>The definitions that evaluate the parser on a concrete input.\<close>

lemmas parser_eval =
  parse_file_def parse_lines_def run_lines_def scan_def init_def step_def finish_def ustr_of_def
  answer_pattern_match_def option_pattern_match_def literal_ignorecase_def class_AZ_def
  class_AZ_ignorecase_def class_delim_def isspace_def Question_init_def strip_def dict_in_def
  keys_def upper_def upper_letter_def

lemma answer_match_not_blank: "answer_pattern_match [] = None"
  by (simp add: answer_pattern_match_def ustr_of_def)

lemma step_core: "core (step s line) = cstep (core s) line"
  by (simp add: core_def step_def cstep.simps Let_def split: option.splits sum.splits prod.splits)

lemma scan_core: "core (scan s ls) = foldl cstep (core s) ls"
  by (induction ls arbitrary: s) (simp_all add: scan_def step_core)

lemma questions_finish: "questions (finish s) = questions s"
  by (simp add: finish_def Let_def)

lemma core_init: "core (init lg) = ([], [], [])"
  by (simp add: core_def init_def)

lemma questions_run_lines: "questions (run_lines lg ls) = fst (foldl cstep ([], [], []) ls)"
proof -
  have "questions (scan (init lg) ls) = fst (core (scan (init lg) ls))"
    by (simp add: core_def)
  then show ?thesis
    by (simp add: run_lines_def questions_finish scan_core core_init)
qed

lemma parse_lines_core: "parse_lines ls = fst (foldl cstep ([], [], []) ls)"
  by (simp add: parse_lines_def questions_run_lines)

lemma cstep_blank: "cstep c [] = c"
  by (cases c) (simp add: cstep.simps)

lemma foldl_cstep_filter_blank: "foldl cstep c (filter (\<lambda>l. l \<noteq> []) ls) = foldl cstep c ls"
  by (induction ls arbitrary: c) (simp_all add: cstep_blank)

lemma cstep_prefix:
  "cstep (qs, t, os) l = (qs @ fst (cstep ([], t, os) l), snd (cstep ([], t, os) l))"
  by (simp add: cstep.simps split: option.splits sum.splits prod.splits)

lemma foldl_cstep_prefix:
  "foldl cstep (qs, t, os) ls =
     (qs @ fst (foldl cstep ([], t, os) ls), snd (foldl cstep ([], t, os) ls))"
proof (induction ls arbitrary: qs t os)
  case Nil
  show ?case by simp
next
  case (Cons l ls)
  obtain new t' os' where st: "cstep ([], t, os) l = (new, t', os')"
    by (cases "cstep ([], t, os) l") auto
  have a: "cstep (qs, t, os) l = (qs @ new, t', os')"
    using cstep_prefix [of qs t os l] st by simp
  show ?case
    using Cons.IH [of "qs @ new" t' os'] Cons.IH [of new t' os'] a st
    by simp
qed

lemma foldl_cstep_inv:
  assumes "P c" and "\<And>c l. P c \<Longrightarrow> P (cstep c l)"
  shows "P (foldl cstep c ls)"
  using assms(1) by (induction ls arbitrary: c) (simp_all add: assms(2))

lemma parse_file_utf8:
  assumes "path_exists w p" and "open_readlines w p UTF8 = Lines raw"
  shows "fst (parse_file w p) = Inr (parse_lines (map strip raw))"
  using assms by (simp add: parse_file_def Let_def parse_lines_core questions_run_lines)


lemma dropWhile_all_iff: "(\<forall>c\<in>set (dropWhile P s). P c) \<longleftrightarrow> dropWhile P s = []"
proof
  assume a: "\<forall>c\<in>set (dropWhile P s). P c"
  show "dropWhile P s = []"
  proof (rule ccontr)
    assume n: "dropWhile P s \<noteq> []"
    then have "\<not> P (hd (dropWhile P s))" by (rule hd_dropWhile)
    moreover from n have "hd (dropWhile P s) \<in> set (dropWhile P s)" by simp
    ultimately show False using a by blast
  qed
next
  assume e: "dropWhile P s = []"
  show "\<forall>c\<in>set (dropWhile P s). P c" unfolding e by simp
qed

lemma strip_empty_iff: "strip s = [] \<longleftrightarrow> (\<forall>c\<in>set s. isspace c)"
proof -
  have "strip s = [] \<longleftrightarrow> (\<forall>c\<in>set (dropWhile isspace s). isspace c)"
    by (simp add: strip_def)
  also have "\<dots> \<longleftrightarrow> dropWhile isspace s = []"
    by (rule dropWhile_all_iff)
  also have "\<dots> \<longleftrightarrow> (\<forall>c\<in>set s. isspace c)"
    by simp
  finally show ?thesis .
qed

lemma strip_fixed: 
  assumes "s \<noteq> []" "\<not> isspace (hd s)" "\<not> isspace (last s)"
  shows "strip s = s"
proof -
  have 1: "dropWhile isspace s = s"
    using assms by (cases s) auto
  have "rev s \<noteq> []" "\<not> isspace (hd (rev s))"
    using assms by (simp_all add: hd_rev)
  then have 2: "dropWhile isspace (rev s) = rev s"
    by (cases "rev s") auto
  show ?thesis by (simp add: strip_def 1 2)
qed

lemma strip_idem: "strip (strip s) = strip s"
proof (cases "strip s = []")
  case True
  have "strip [] = []" by (simp add: strip_def)
  then show ?thesis unfolding True .
next
  case False
  let ?u = "dropWhile isspace s"
  let ?v = "strip s"
  have v: "?v = rev (dropWhile isspace (rev ?u))" by (simp add: strip_def)
  have un: "?u \<noteq> []"
  proof
    assume e: "?u = []"
    have "strip s = []" unfolding strip_def e by simp
    with False show False by simp
  qed
  have "rev (takeWhile isspace (rev ?u) @ dropWhile isspace (rev ?u)) = rev (rev ?u)"
    by (simp only: takeWhile_dropWhile_id)
  then have u: "?u = ?v @ rev (takeWhile isspace (rev ?u))"
    by (simp only: rev_append rev_rev_ident v)
  have "hd ?v = hd ?u" using u False by (metis hd_append2)
  moreover have "\<not> isspace (hd ?u)" using un by (rule hd_dropWhile)
  ultimately have h: "\<not> isspace (hd ?v)" by simp
  have "dropWhile isspace (rev ?u) \<noteq> []" using False v by simp
  then have "\<not> isspace (hd (dropWhile isspace (rev ?u)))" by (rule hd_dropWhile)
  then have l: "\<not> isspace (last ?v)" using False v by (simp add: last_rev)
  show ?thesis using False h l by (rule strip_fixed)
qed

lemma parse_file_Inr:
  assumes "fst (parse_file w p) = Inr qs"
  shows "\<exists>raw. qs = parse_lines (map strip raw)"
  using assms
  by (auto simp add: parse_file_def Let_def parse_lines_core questions_run_lines
      split: if_splits read_outcome.splits)

lemma Question_init_Inr:
  "Question_init t os a = Inr q \<longleftrightarrow>
     q = \<lparr>qtext = t, options = os, answer = a\<rparr> \<and> strip t \<noteq> [] \<and> os \<noteq> [] \<and> dict_in a os"
  by (auto simp add: Question_init_def)

lemma Question_init_invariant: "Question_init t os a = Inr q \<Longrightarrow> invariant q"
  by (auto simp add: Question_init_Inr invariant_def)

lemma isspace_newline: "isspace 10"
  by (simp add: isspace_def)

lemma option_match_Cons_None:
  "\<not> (class_AZ l \<and> class_delim d) \<Longrightarrow> option_pattern_match (l # d # rest) = None"
  "takeWhile isspace rest = [] \<Longrightarrow> option_pattern_match (l # d # rest) = None"
  by (auto simp add: option_pattern_match_def)

lemma option_match_Cons_text:
  assumes "class_AZ l" "class_delim d" "takeWhile isspace rest \<noteq> []"
    and "dropWhile isspace rest \<noteq> []"
  shows "option_pattern_match (l # d # rest) =
     (if dropWhile (\<lambda>c. c \<noteq> 10) (dropWhile isspace rest) = [] \<or>
         dropWhile (\<lambda>c. c \<noteq> 10) (dropWhile isspace rest) = [10]
      then Some ([l], takeWhile (\<lambda>c. c \<noteq> 10) (dropWhile isspace rest)) else None)"
  using assms unfolding option_pattern_match_def Let_def list.case
  by (simp only: if_True if_False simp_thms)

lemma option_match_Cons_spaces:
  assumes "class_AZ l" "class_delim d" "takeWhile isspace rest \<noteq> []"
    and "dropWhile isspace rest = []"
    and "body = (if last (takeWhile isspace rest) = 10 then butlast (takeWhile isspace rest)
                 else takeWhile isspace rest)"
  shows "option_pattern_match (l # d # rest) =
     (if 2 \<le> length body \<and> last body \<noteq> 10 then Some ([l], [last body]) else None)"
  using assms(1-4) unfolding option_pattern_match_def Let_def list.case assms(5)
  by (simp only: if_True if_False simp_thms)

lemma option_match_short: "option_pattern_match [] = None" "option_pattern_match [l] = None"
  by (simp_all add: option_pattern_match_def)

lemma option_match_shape:
  assumes "option_pattern_match line = Some (k, v)"
  shows "\<exists>l d ws e. line = l # d # ws @ v @ e \<and> class_AZ l \<and> class_delim d \<and> k = [l] \<and>
           ws \<noteq> [] \<and> (\<forall>c\<in>set ws. isspace c) \<and> v \<noteq> [] \<and> 10 \<notin> set v \<and> (e = [] \<or> e = [10])"
proof -
  from assms obtain l d rest where line: "line = l # d # rest"
    using option_match_short by (cases line rule: list.exhaust; cases "tl line") auto
  let ?ws = "takeWhile isspace rest"
  let ?r = "dropWhile isspace rest"
  note m = assms [unfolded line]
  have "class_AZ l \<and> class_delim d"
    using m option_match_Cons_None(1) [of l d rest] by auto
  then have cls: "class_AZ l" "class_delim d"
    by simp_all
  have ws: "?ws \<noteq> []"
    using m option_match_Cons_None(2) [of rest l d] by auto
  have sp: "\<forall>c\<in>set ?ws. isspace c"
    by (auto dest: set_takeWhileD)
  show ?thesis
  proof (cases "?r = []")
    case False
    let ?g = "takeWhile (\<lambda>c. c \<noteq> 10) ?r"
    let ?e = "dropWhile (\<lambda>c. c \<noteq> 10) ?r"
    from m have v: "v = ?g" and e: "?e = [] \<or> ?e = [10]" and k: "k = [l]"
      unfolding option_match_Cons_text [OF cls ws False] by (simp_all split: if_splits)
    have "\<not> isspace (hd ?r)" using False by (rule hd_dropWhile)
    then have "hd ?r \<noteq> 10" using isspace_newline by auto
    then have g: "?g \<noteq> []" using False by (cases ?r) auto
    have "10 \<notin> set ?g" by (auto dest: set_takeWhileD)
    moreover have "rest = ?ws @ ?g @ ?e" by simp
    ultimately show ?thesis using line cls k ws sp v e g by blast
  next
    case True
    define body where "body = (if last ?ws = 10 then butlast ?ws else ?ws)"
    define e where "e = (if last ?ws = 10 then [10] else ([]::ustr))"
    from m have v: "v = [last body]" and len: "2 \<le> length body"
      and nl: "last body \<noteq> 10" and k: "k = [l]"
      unfolding option_match_Cons_spaces [OF cls ws True body_def]
      by (simp_all split: if_splits)
    have rest: "rest = ?ws" using True by (metis takeWhile_eq_all_conv dropWhile_eq_Nil_conv)
    have bn: "body \<noteq> []" using len by auto
    have a: "?ws = body @ e"
    proof (cases "last ?ws = 10")
      case True
      have "butlast ?ws @ [last ?ws] = ?ws" using ws by simp
      then show ?thesis unfolding body_def e_def using True by simp
    next
      case False
      then show ?thesis unfolding body_def e_def by simp
    qed
    have b: "body = butlast body @ v" using bn v by simp
    have "rest = body @ e" using rest a by (rule trans)
    also have "body @ e = (butlast body @ v) @ e"
      using b by (rule arg_cong [where f = "\<lambda>x. x @ e"])
    finally have dec: "rest = butlast body @ v @ e" by simp
    have sb: "set body \<subseteq> set ?ws" unfolding a by simp
    have "butlast body \<noteq> []" using len by (cases body rule: rev_cases) auto
    moreover have "\<forall>c\<in>set (butlast body). isspace c"
      using sp sb by (auto dest: in_set_butlastD)
    moreover have "10 \<notin> set v" using v nl by simp
    moreover have "v \<noteq> []" using v by simp
    moreover have "e = [] \<or> e = [10]" unfolding e_def by simp
    ultimately show ?thesis using line cls k dec by blast
  qed
qed

lemma option_match_text_nonempty: "option_pattern_match line = Some (k, v) \<Longrightarrow> v \<noteq> []"
  using option_match_shape by blast

lemma answer_match_two: "class_delim d \<Longrightarrow> answer_pattern_match [l, d] = None"
  by (simp add: answer_pattern_match_def ustr_of_def literal_ignorecase_def class_AZ_def class_delim_def)

lemma dict_set_nonempty: "dict_set d k v \<noteq> []"
  by (cases d) (auto split: if_splits)

lemma set_dict_set: "set (dict_set d k v) \<subseteq> insert (k, v) (set d)"
  by (induction d) (auto split: if_splits)

lemma cstep_result:
  assumes "cstep (qs, t, os) l = (qs', t', os')"
  shows "(qs' = qs \<and> t' = t \<and> os' = os \<and> (l = [] \<or> (answer_pattern_match l \<noteq> None \<and> (t = [] \<or> os = [])))) \<or>
   (\<exists>g q. answer_pattern_match l = Some g \<and> t \<noteq> [] \<and> os \<noteq> [] \<and>
      Question_init (strip t) os (upper g) = Inr q \<and> qs' = qs @ [q] \<and> t' = [] \<and> os' = []) \<or>
   (\<exists>g e. answer_pattern_match l = Some g \<and> t \<noteq> [] \<and> os \<noteq> [] \<and>
      Question_init (strip t) os (upper g) = Inl e \<and> qs' = qs \<and> t' = [] \<and> os' = []) \<or>
   (\<exists>k v. l \<noteq> [] \<and> answer_pattern_match l = None \<and> option_pattern_match l = Some (k, v) \<and>
      qs' = qs \<and> t' = t \<and> os' = dict_set os k v) \<or>
   (l \<noteq> [] \<and> answer_pattern_match l = None \<and> option_pattern_match l = None \<and>
      qs' = qs \<and> os' = os \<and> t' = (if t \<noteq> [] then t @ [32] @ l else l))"
  using assms by (auto simp add: cstep.simps split: option.splits sum.splits prod.splits if_splits)

lemma cstep_option_values:
  assumes "\<forall>q\<in>set qs. \<forall>kv\<in>set (options q). snd kv \<noteq> []" "\<forall>kv\<in>set os. snd kv \<noteq> []"
    and "cstep (qs, t, os) l = (qs', t', os')"
  shows "(\<forall>q\<in>set qs'. \<forall>kv\<in>set (options q). snd kv \<noteq> []) \<and> (\<forall>kv\<in>set os'. snd kv \<noteq> [])"
  using cstep_result [OF assms(3)]
proof (elim disjE exE conjE)
  fix k v
  assume "option_pattern_match l = Some (k, v)" "qs' = qs" "os' = dict_set os k v"
  then show ?thesis
    using assms(1,2) option_match_text_nonempty [of l k v] set_dict_set [of os k v] by auto
qed (use assms(1,2) in \<open>auto simp add: Question_init_Inr\<close>)

lemma parse_lines_option_values:
  assumes "q \<in> set (parse_lines ls)" "kv \<in> set (options q)"
  shows "snd kv \<noteq> []"
proof -
  let ?P = "\<lambda>c::core. (\<forall>q\<in>set (fst c). \<forall>kv\<in>set (options q). snd kv \<noteq> []) \<and>
                 (\<forall>kv\<in>set (snd (snd c)). snd kv \<noteq> [])"
  have "?P (foldl cstep ([], [], []) ls)"
  proof (rule foldl_cstep_inv)
    show "?P ([], [], [])" by simp
  next
    fix c l
    assume "?P c"
    then show "?P (cstep c l)"
      using cstep_option_values [of "fst c" "snd (snd c)" "fst (snd c)" l
          "fst (cstep c l)" "fst (snd (cstep c l))" "snd (snd (cstep c l))"]
      by simp
  qed
  then show ?thesis using assms by (simp add: parse_lines_core)
qed

lemma step_two_chars:
  assumes "class_AZ l" "class_delim d"
  shows "step s [l, d] =
     s\<lparr>line_number := line_number s + 1,
       current_question_text := (if current_question_text s \<noteq> []
                                 then current_question_text s @ [32, l, d] else [l, d])\<rparr>"
  using assms by (simp add: step_def Let_def answer_match_two option_match_Cons_None(2))

lemma step_options_change:
  assumes "current_options (step s line) \<noteq> current_options s"
  shows "current_options (step s line) = [] \<or>
     (\<exists>k v. option_pattern_match line = Some (k, v) \<and>
        current_options (step s line) = dict_set (current_options s) k v)"
proof -
  have "cstep (questions s, current_question_text s, current_options s) line =
    (questions (step s line), current_question_text (step s line), current_options (step s line))"
    using step_core [of s line] unfolding core_def by simp
  from cstep_result [OF this] assms show ?thesis by auto
qed

lemma cstep_no_answer:
  assumes "answer_pattern_match l = None"
  shows "fst (cstep c l) = fst c"
    and "fst (snd c) \<noteq> [] \<or> snd (snd c) \<noteq> [] \<or> l \<noteq> [] \<Longrightarrow>
         fst (snd (cstep c l)) \<noteq> [] \<or> snd (snd (cstep c l)) \<noteq> []"
proof -
  obtain qs t os where c: "c = (qs, t, os)" by (cases c) auto
  obtain qs' t' os' where r: "cstep (qs, t, os) l = (qs', t', os')"
    by (cases "cstep (qs, t, os) l") auto
  show "fst (cstep c l) = fst c"
    using cstep_result [OF r] assms by (auto simp add: c r)
  assume "fst (snd c) \<noteq> [] \<or> snd (snd c) \<noteq> [] \<or> l \<noteq> []"
  then show "fst (snd (cstep c l)) \<noteq> [] \<or> snd (snd (cstep c l)) \<noteq> []"
    using cstep_result [OF r] assms dict_set_nonempty [of os] dict_set_nonempty [of os, THEN not_sym]
    by (auto simp add: c r split: if_splits)
qed

lemma foldl_cstep_no_answer:
  assumes "\<forall>l\<in>set tail. answer_pattern_match l = None"
  shows "fst (foldl cstep c tail) = fst c"
  using assms by (induction tail arbitrary: c) (simp_all add: cstep_no_answer(1))

lemma foldl_cstep_open:
  assumes "\<forall>l\<in>set tail. answer_pattern_match l = None"
    and "fst (snd c) \<noteq> [] \<or> snd (snd c) \<noteq> [] \<or> (\<exists>l\<in>set tail. l \<noteq> [])"
  shows "fst (snd (foldl cstep c tail)) \<noteq> [] \<or> snd (snd (foldl cstep c tail)) \<noteq> []"
  using assms
proof (induction tail arbitrary: c)
  case Nil
  then show ?case by simp
next
  case (Cons l tail)
  have a: "answer_pattern_match l = None" using Cons.prems(1) by simp
  have t: "\<forall>l\<in>set tail. answer_pattern_match l = None" using Cons.prems(1) by simp
  have "fst (snd (cstep c l)) \<noteq> [] \<or> snd (snd (cstep c l)) \<noteq> [] \<or> (\<exists>l\<in>set tail. l \<noteq> [])"
  proof (cases "fst (snd c) \<noteq> [] \<or> snd (snd c) \<noteq> [] \<or> l \<noteq> []")
    case True
    then have "fst (snd (cstep c l)) \<noteq> [] \<or> snd (snd (cstep c l)) \<noteq> []"
      by (rule cstep_no_answer(2) [OF a])
    then show ?thesis by blast
  next
    case False
    then have "\<exists>l\<in>set tail. l \<noteq> []" using Cons.prems(2) by auto
    then show ?thesis by blast
  qed
  from Cons.IH [OF t this] show ?case by simp
qed

lemma finish_open:
  assumes "current_question_text s \<noteq> [] \<or> current_options s \<noteq> []"
  shows "questions (finish s) = questions s"
    and "log (finish s) = log s @ [(WARNING, Incomplete_at_end), (INFO, Parse_done (length (questions s)))]"
  using assms by (auto simp add: finish_def Let_def)

lemma parse_file_utf8_log:
  assumes "path_exists w p" and "open_readlines w p UTF8 = Lines raw"
  shows "snd (parse_file w p) = log (run_lines [(INFO, Parsing_file)] (map strip raw))"
  using assms by (simp add: parse_file_def Let_def)

lemma parse_lines_append_no_answer:
  assumes "\<forall>l\<in>set tail. answer_pattern_match l = None"
  shows "parse_lines (pre @ tail) = parse_lines pre"
  using assms by (simp add: parse_lines_core foldl_cstep_no_answer)

lemma run_lines_open_log:
  assumes "\<forall>l\<in>set tail. answer_pattern_match l = None" and "\<exists>l\<in>set tail. l \<noteq> []"
  shows "\<exists>lg'. log (run_lines lg (pre @ tail)) =
           lg' @ [(WARNING, Incomplete_at_end), (INFO, Parse_done (length (parse_lines pre)))]"
proof -
  let ?s = "scan (init lg) (pre @ tail)"
  have c: "core ?s = foldl cstep (foldl cstep ([], [], []) pre) tail"
    by (simp add: scan_core core_init)
  have "fst (snd (core ?s)) \<noteq> [] \<or> snd (snd (core ?s)) \<noteq> []"
    unfolding c using assms by (intro foldl_cstep_open) auto
  then have op: "current_question_text ?s \<noteq> [] \<or> current_options ?s \<noteq> []"
    by (simp add: core_def)
  have "questions ?s = fst (core ?s)" by (simp add: core_def)
  then have "questions ?s = parse_lines pre"
    unfolding c using assms(1) by (simp add: foldl_cstep_no_answer parse_lines_core)
  then show ?thesis
    using finish_open(2) [OF op] by (simp add: run_lines_def)
qed

lemma line_number_scan: "line_number (scan s ls) = line_number s + length ls"
proof (induction ls arbitrary: s)
  case Nil
  show ?case by (simp add: scan_def)
next
  case (Cons l ls)
  have "line_number (step s l) = line_number s + 1"
    by (simp add: step_def Let_def split: option.splits sum.splits prod.splits)
  then show ?case using Cons.IH [of "step s l"] by (simp add: scan_def)
qed

lemma parse_lines_from_reset: "fst (foldl cstep (qs, [], []) ls) = qs @ parse_lines ls"
  using foldl_cstep_prefix [of qs "[]" "[]" ls] by (simp add: parse_lines_core)

lemma questions_scan_init: "questions (scan (init lg) ls) = parse_lines ls"
proof -
  have "questions (scan (init lg) ls) = fst (core (scan (init lg) ls))" by (simp add: core_def)
  then show ?thesis by (simp add: scan_core core_init parse_lines_core)
qed

lemma step_rejected_answer:
  assumes "answer_pattern_match aline = Some g"
    and "current_question_text s \<noteq> []" and "current_options s \<noteq> []"
    and "\<not> dict_in (upper g) (current_options s)"
  shows "\<exists>e. step s aline =
     s\<lparr>line_number := line_number s + 1,
       log := log s @ [(ERROR, Question_error (line_number s + 1) e)],
       current_question_text := [], current_options := []\<rparr>"
proof -
  from assms(1) have n: "aline \<noteq> []" using answer_match_not_blank by auto
  have "\<exists>e. Question_init (strip (current_question_text s)) (current_options s) (upper g) = Inl e"
    using assms(4) by (simp add: Question_init_def)
  then obtain e where
    "Question_init (strip (current_question_text s)) (current_options s) (upper g) = Inl e" ..
  then show ?thesis using assms(1-3) n by (intro exI [of _ e]) (simp add: step_def Let_def)
qed

lemma parse_lines_invariant:
  assumes "q \<in> set (parse_lines ls)"
  shows "invariant q"
proof -
  let ?P = "\<lambda>c::core. \<forall>q\<in>set (fst c). invariant q"
  have "?P (foldl cstep ([], [], []) ls)"
  proof (rule foldl_cstep_inv)
    show "?P ([], [], [])" by simp
  next
    fix c :: core and l
    assume p: "?P c"
    obtain qs t os where c: "c = (qs, t, os)" by (cases c) auto
    obtain qs' t' os' where r: "cstep (qs, t, os) l = (qs', t', os')"
      by (cases "cstep (qs, t, os) l") auto
    show "?P (cstep c l)"
      using cstep_result [OF r] p Question_init_invariant by (auto simp add: c r)
  qed
  then show ?thesis using assms by (simp add: parse_lines_core)
qed

lemma answer_match_delim: "class_delim d \<Longrightarrow> answer_pattern_match (l # d # rest) = None"
  by (auto simp add: answer_pattern_match_def ustr_of_def literal_ignorecase_def class_AZ_def
      class_delim_def)

lemma option_line_not_answer:
  assumes "option_pattern_match line = Some kv"
  shows "answer_pattern_match line = None" and "line \<noteq> []"
proof -
  obtain k v where "kv = (k, v)" by (cases kv) auto
  with assms option_match_shape [of line k v] obtain l d rest where
    "line = l # d # rest" "class_delim d" by auto
  then show "answer_pattern_match line = None" and "line \<noteq> []"
    by (simp_all add: answer_match_delim)
qed

lemma dict_set_new: "k \<notin> fst ` set d \<Longrightarrow> dict_set d k v = d @ [(k, v)]"
  by (induction d) auto

lemma cstep_text_line:
  assumes "l \<noteq> []" "answer_pattern_match l = None" "option_pattern_match l = None"
  shows "cstep (qs, t, os) l = (qs, if t \<noteq> [] then t @ [32] @ l else l, os)"
  using assms by (simp add: cstep.simps)

lemma cstep_option_line:
  assumes "option_pattern_match l = Some (k, v)"
  shows "cstep (qs, t, os) l = (qs, t, dict_set os k v)"
  using assms option_line_not_answer [OF assms] by (simp add: cstep.simps)

lemma foldl_cstep_text_lines:
  assumes "\<forall>l\<in>set ls. l \<noteq> [] \<and> answer_pattern_match l = None \<and> option_pattern_match l = None"
    and "t \<noteq> []"
  shows "foldl cstep (qs, t, os) ls = (qs, t @ concat (map ((#) 32) ls), os)"
  using assms
proof (induction ls arbitrary: t)
  case Nil
  show ?case by simp
next
  case (Cons l ls)
  have "cstep (qs, t, os) l = (qs, t @ [32] @ l, os)"
    using Cons.prems by (simp add: cstep_text_line)
  then show ?case using Cons.IH [of "t @ [32] @ l"] Cons.prems by simp
qed

lemma foldl_cstep_option_lines:
  assumes "map option_pattern_match ls = map Some kvs"
    and "distinct (map fst kvs)"
    and "fst ` set kvs \<inter> fst ` set os = {}"
  shows "foldl cstep (qs, t, os) ls = (qs, t, os @ kvs)"
  using assms
proof (induction ls arbitrary: os kvs)
  case Nil
  then show ?case by simp
next
  case (Cons l ls)
  from Cons.prems(1) obtain kv kvs' where kvs: "kvs = kv # kvs'"
    and m: "option_pattern_match l = Some kv"
    and rest: "map option_pattern_match ls = map Some kvs'"
    by (cases kvs) auto
  obtain k v where kv: "kv = (k, v)" by (cases kv) auto
  have "k \<notin> fst ` set os" using Cons.prems(3) kvs kv by auto
  then have st: "cstep (qs, t, os) l = (qs, t, os @ [(k, v)])"
    using m kv by (simp add: cstep_option_line dict_set_new)
  have d: "distinct (map fst kvs')" using Cons.prems(2) kvs by simp
  have "fst ` set kvs' \<inter> fst ` set (os @ [(k, v)]) = {}"
    using Cons.prems(2,3) kvs kv by auto
  from Cons.IH [OF rest d this] st show ?case by (simp add: kvs kv)
qed

lemma strip_nonblank: "c \<in> set s \<Longrightarrow> \<not> isspace c \<Longrightarrow> strip s \<noteq> []"
  using strip_empty_iff [of s] by auto

lemma trailing_lines_discarded:
  assumes "path_exists w p" and "open_readlines w p UTF8 = Lines raw"
    and "map strip raw = pre @ tail"
    and "\<forall>l\<in>set tail. answer_pattern_match l = None" and "\<exists>l\<in>set tail. l \<noteq> []"
  shows "fst (parse_file w p) = Inr (parse_lines pre)
       \<and> (\<exists>lg'. snd (parse_file w p) =
             lg' @ [(WARNING, Incomplete_at_end), (INFO, Parse_done (length (parse_lines pre)))])
       \<and> (let s = scan (init [(INFO, Parsing_file)]) (map strip raw) in
            (current_question_text s \<noteq> [] \<or> current_options s \<noteq> []) \<and>
            questions s = parse_lines pre)"
proof -
  have 1: "fst (parse_file w p) = Inr (parse_lines pre)"
    using parse_file_utf8 [OF assms(1,2)] assms(3) parse_lines_append_no_answer [OF assms(4)]
    by simp
  have 2: "\<exists>lg'. snd (parse_file w p) =
             lg' @ [(WARNING, Incomplete_at_end), (INFO, Parse_done (length (parse_lines pre)))]"
    using parse_file_utf8_log [OF assms(1,2)] assms(3) run_lines_open_log [OF assms(4,5)]
    by simp
  let ?s = "scan (init [(INFO, Parsing_file)]) (pre @ tail)"
  have c: "core ?s = foldl cstep (foldl cstep ([], [], []) pre) tail"
    by (simp add: scan_core core_init)
  have "fst (snd (core ?s)) \<noteq> [] \<or> snd (snd (core ?s)) \<noteq> []"
    unfolding c using assms(4,5) by (intro foldl_cstep_open) auto
  then have op: "current_question_text ?s \<noteq> [] \<or> current_options ?s \<noteq> []"
    by (simp add: core_def)
  have "questions ?s = fst (core ?s)" by (simp add: core_def)
  then have q: "questions ?s = parse_lines pre"
    unfolding c using assms(4) by (simp add: foldl_cstep_no_answer parse_lines_core)
  show ?thesis using 1 2 op q assms(3) by (simp add: Let_def)
qed

section \<open>The generator\<close>

lemma re_sub_unsafe_filter: "re_sub_unsafe s = filter (\<lambda>c. \<not> class_unsafe c) s"
  by (induction s) simp_all

lemma placeholder_safe: "\<forall>c\<in>set placeholder. \<not> class_unsafe c"
  by (simp add: placeholder_def ustr_of_def class_unsafe_def)

lemma placeholder_nonempty: "placeholder \<noteq> []"
  by (simp add: placeholder_def ustr_of_def)

lemma xml_Char_numeral:
  "xml_Char (numeral k) \<longleftrightarrow>
     (numeral k :: nat) = 9 \<or> (numeral k :: nat) = 10 \<or> (numeral k :: nat) = 13 \<or>
     (32 \<le> (numeral k :: nat) \<and> (numeral k :: nat) \<le> 55295) \<or>
     (57344 \<le> (numeral k :: nat) \<and> (numeral k :: nat) \<le> 65533) \<or>
     (65536 \<le> (numeral k :: nat) \<and> (numeral k :: nat) \<le> 1114111)"
  by (simp add: xml_Char_def)

lemma xml_Char_not_surrogate: "xml_Char c \<Longrightarrow> \<not> surrogate c"
  by (auto simp add: xml_Char_def surrogate_def)

lemma reparse_pretty_ok:
  assumes "list_all xml_Char r"
  shows "reparse_pretty r = Inr (Pretty_of r)"
proof -
  have "\<not> list_ex surrogate r"
    using assms xml_Char_not_surrogate by (auto simp add: list_all_iff list_ex_iff)
  then show ?thesis using assms by (simp add: reparse_pretty_def)
qed

lemma escape_cdata_ok: "list_all xml_Char s \<Longrightarrow> list_all xml_Char (escape_cdata s)"
  by (induction s)
    (simp_all add: escape_cdata_def escape_cdata_char_def ustr_of_def xml_Char_numeral)

lemma escape_attrib_ok: "list_all xml_Char s \<Longrightarrow> list_all xml_Char (escape_attrib s)"
  by (induction s)
    (simp_all add: escape_attrib_def escape_attrib_char_def ustr_of_def xml_Char_numeral)

lemma attribs_tostring_ok:
  assumes "list_all (\<lambda>kv. list_all xml_Char (fst kv) \<and> list_all xml_Char (snd kv)) attrs"
  shows "list_all xml_Char (concat (map attrib_tostring attrs))"
  using assms
  by (induction attrs) (simp_all add: attrib_tostring_def escape_attrib_ok xml_Char_numeral)

lemma ET_tostring_ok: "elem_ok e \<Longrightarrow> list_all xml_Char (ET_tostring e)"
proof (induction e)
  case (Element tg attrs tx cs)
  have "\<forall>c\<in>set cs. list_all xml_Char (ET_tostring c)"
    using Element.IH Element.prems by (simp add: list_all_iff)
  then have "list_all xml_Char (concat (map ET_tostring cs))"
    by (auto simp add: list_all_iff)
  then show ?case
    using Element.prems by (simp add: attribs_tostring_ok escape_cdata_ok xml_Char_numeral)
qed

lemma safe_title_ok:
  assumes "list_all xml_Char s"
  shows "list_all xml_Char (safe_title s 50)"
proof -
  have f: "list_all xml_Char (re_sub_unsafe s)"
    using assms by (simp add: re_sub_unsafe_filter list_all_iff)
  then have "list_all xml_Char (take 50 (re_sub_unsafe s))"
    by (auto simp add: list_all_iff dest: in_set_takeD)
  moreover have "list_all xml_Char placeholder"
    by (simp add: placeholder_def ustr_of_def xml_Char_numeral)
  moreover have "list_all xml_Char (ustr_of ''...'')"
    by (simp add: ustr_of_def xml_Char_numeral)
  ultimately show ?thesis using f
    by (simp add: safe_title_def Let_def slice_to_def)
qed

lemma map_fst_dict_set: "set (map fst (dict_set d k v)) = insert k (set (map fst d))"
proof (induction d)
  case Nil
  show ?case by simp
next
  case (Cons a d)
  obtain k' v' where a: "a = (k', v')" by (cases a) auto
  show ?case
  proof (cases "k' = k")
    case True
    then show ?thesis by (simp add: a)
  next
    case False
    then show ?thesis using Cons.IH by (simp add: a insert_commute)
  qed
qed

lemma keys_dict_set: "fst ` set (dict_set d k v) = insert k (fst ` set d)"
  using map_fst_dict_set [of d k v] by simp

lemma option_ids_keys:
  "fst ` set (option_ids rnd n ls d) = fst ` set d \<union> set ls"
  by (induction ls arbitrary: n d) (auto simp add: keys_dict_set)

lemma option_ids_values_ok:
  assumes "\<forall>k. list_all xml_Char (rnd k)" and "\<forall>l\<in>set ls. list_all xml_Char l"
    and "\<forall>kv\<in>set d. list_all xml_Char (snd kv)"
  shows "\<forall>kv\<in>set (option_ids rnd n ls d). list_all xml_Char (snd kv)"
  using assms(2,3)
proof (induction ls arbitrary: n d)
  case Nil
  then show ?case by simp
next
  case (Cons l ls)
  let ?v = "ustr_of ''Choice_'' @ l @ ustr_of ''_'' @ take 8 (rnd n)"
  have "list_all xml_Char (take 8 (rnd n))"
    using assms(1) by (auto simp add: list_all_iff dest: in_set_takeD)
  then have v: "list_all xml_Char ?v"
    using Cons.prems(1) by (simp add: ustr_of_def xml_Char_numeral)
  have "\<forall>kv\<in>set (dict_set d l ?v). list_all xml_Char (snd kv)"
    using set_dict_set [of d l ?v] Cons.prems(2) v by auto
  then show ?case using Cons.IH [of "dict_set d l ?v" "n + 1"] Cons.prems(1) by simp
qed

lemma map_of_in_keys: "k \<in> fst ` set d \<Longrightarrow> \<exists>v. map_of d k = Some v \<and> (k, v) \<in> set d"
  by (induction d) auto

lemma simple_choices_ok:
  assumes "set ls \<subseteq> fst ` set os" and "set ls \<subseteq> fst ` set ids"
    and "\<forall>kv\<in>set os. list_all xml_Char (snd kv)" and "\<forall>kv\<in>set ids. list_all xml_Char (snd kv)"
  shows "\<exists>es. simple_choices os ids ls = Inr es \<and> list_all elem_ok es \<and> length es = length ls"
  using assms(1,2)
proof (induction ls)
  case Nil
  show ?case by simp
next
  case (Cons l ls)
  obtain tx where t: "map_of os l = Some tx" "(l, tx) \<in> set os"
    using map_of_in_keys [of l os] Cons.prems(1) by auto
  obtain i where i: "map_of ids l = Some i" "(l, i) \<in> set ids"
    using map_of_in_keys [of l ids] Cons.prems(2) by auto
  obtain es where es: "simple_choices os ids ls = Inr es" "list_all elem_ok es"
    "length es = length ls"
    using Cons.IH Cons.prems by auto
  have "list_all xml_Char tx" "list_all xml_Char i"
    using assms(3,4) t(2) i(2) by auto
  then show ?case using t(1) i(1) es by (simp add: ustr_of_def xml_Char_numeral)
qed

lemma correct_response_ok:
  assumes "\<forall>kv\<in>set ids. list_all xml_Char (snd kv)"
  shows "elem_ok (correct_response q ids)"
proof (cases "map_of ids (answer q)")
  case None
  then show ?thesis by (simp add: correct_response_def ustr_of_def xml_Char_numeral)
next
  case (Some i)
  then have "(answer q, i) \<in> set ids" by (rule map_of_SomeD)
  then have "list_all xml_Char i" using assms by auto
  then show ?thesis using Some by (simp add: correct_response_def ustr_of_def xml_Char_numeral)
qed

lemma response_processing_ok: "elem_ok response_processing"
  by (simp add: response_processing_def ustr_of_def xml_Char_numeral)

lemma qti_ns_ok: "list_all xml_Char qti_ns"
  by (simp add: qti_ns_def ustr_of_def xml_Char_numeral)

lemma imscp_ns_ok: "list_all xml_Char imscp_ns"
  by (simp add: imscp_ns_def ustr_of_def xml_Char_numeral)

lemma item_element_ok:
  assumes "question_chars_ok q" and "\<forall>k. list_all xml_Char (rnd k)"
    and "list_all xml_Char item_id"
  shows "\<exists>root. item_element rnd n q item_id = Inr root \<and> elem_ok root"
proof -
  let ?os = "options q"
  let ?ids = "option_ids rnd n (keys ?os) []"
  have kl: "\<forall>l\<in>set (keys ?os). list_all xml_Char l"
    using assms(1) by (auto simp add: question_chars_ok_def keys_def list_all_iff)
  have vo: "\<forall>kv\<in>set ?os. list_all xml_Char (snd kv)"
    using assms(1) by (auto simp add: question_chars_ok_def list_all_iff)
  have vi: "\<forall>kv\<in>set ?ids. list_all xml_Char (snd kv)"
    using option_ids_values_ok [OF assms(2) kl, of "[]" n] by simp
  have ki: "fst ` set ?ids = set (keys ?os)"
    by (simp add: option_ids_keys)
  have "set (sort (keys ?os)) \<subseteq> fst ` set ?os" "set (sort (keys ?os)) \<subseteq> fst ` set ?ids"
    by (simp_all add: ki) (simp add: keys_def)
  from simple_choices_ok [OF this vo vi] obtain es where
    es: "simple_choices ?os ?ids (sort (keys ?os)) = Inr es" "list_all elem_ok es" by blast
  have t: "list_all xml_Char (qtext q)"
    using assms(1) by (simp add: question_chars_ok_def)
  show ?thesis
    using es t assms(3) correct_response_ok [OF vi, of q] response_processing_ok qti_ns_ok
      safe_title_ok [OF t]
    by (simp add: item_element_def Let_def ustr_of_def xml_Char_numeral)
qed

lemma generate_item_xml_ok:
  assumes "question_chars_ok q" and "\<forall>k. list_all xml_Char (rnd k)"
    and "list_all xml_Char item_id"
  shows "\<exists>root. item_element rnd n q item_id = Inr root \<and>
           generate_item_xml rnd n q item_id =
             Inr (Pretty_of (ET_tostring root), n + length (keys (options q)))"
proof -
  obtain root where r: "item_element rnd n q item_id = Inr root" "elem_ok root"
    using item_element_ok [OF assms] by blast
  then show ?thesis
    by (simp add: generate_item_xml_def reparse_pretty_ok ET_tostring_ok)
qed

lemma resource_element_ok:
  assumes "list_all xml_Char (fst r)" "list_all xml_Char (snd r)"
  shows "elem_ok (resource_element r)"
  using assms by (simp add: resource_element_def ustr_of_def xml_Char_numeral)

lemma manifest_element_ok:
  assumes "\<forall>k. list_all xml_Char (rnd k)"
    and "\<forall>r\<in>set resources. list_all xml_Char (fst r) \<and> list_all xml_Char (snd r)"
  shows "elem_ok (manifest_element rnd n resources)"
proof -
  have "list_all elem_ok (map resource_element resources)"
    using assms(2) by (simp add: list_all_iff resource_element_ok)
  then show ?thesis
    using assms(1) qti_ns_ok imscp_ns_ok
    by (simp add: manifest_element_def ustr_of_def xml_Char_numeral)
qed

lemma generate_manifest_ok:
  assumes "\<forall>k. list_all xml_Char (rnd k)"
    and "\<forall>r\<in>set resources. list_all xml_Char (fst r) \<and> list_all xml_Char (snd r)"
  shows "generate_manifest rnd n resources =
           Inr (Pretty_of (ET_tostring (manifest_element rnd n resources)), n + 1)"
  using manifest_element_ok [OF assms]
  by (simp add: generate_manifest_def reparse_pretty_ok ET_tostring_ok)

lemma simple_choices_member:
  assumes "simple_choices os ids ls = Inr es" and "letter \<in> set ls"
  shows "\<exists>v i. map_of os letter = Some v \<and> map_of ids letter = Some i \<and>
           Element (ustr_of ''simpleChoice'') [(ustr_of ''identifier'', i)] v [] \<in> set es"
  using assms
proof (induction ls arbitrary: es)
  case Nil
  then show ?case by simp
next
  case (Cons l ls)
  from Cons.prems(1) obtain v i es' where
    v: "map_of os l = Some v" and i: "map_of ids l = Some i"
    and r: "simple_choices os ids ls = Inr es'"
    and es: "es = Element (ustr_of ''simpleChoice'') [(ustr_of ''identifier'', i)] v [] # es'"
    by (auto split: option.splits sum.splits)
  show ?case
  proof (cases "letter = l")
    case True
    then show ?thesis using v i es by simp
  next
    case False
    then have "letter \<in> set ls" using Cons.prems(2) by simp
    from Cons.IH [OF r this] show ?thesis using es by auto
  qed
qed

text \<open>
  For an item that is built: the value of the correct response is the identifier of the
  choice that carries the text of the option named by \<open>answer\<close>.
\<close>

lemma correct_response_linkage:
  assumes "invariant q" and "item_element rnd n q item_id = Inr root"
  shows "\<exists>choices i v.
       simple_choices (options q) (option_ids rnd n (keys (options q)) [])
         (sort (keys (options q))) = Inr choices
     \<and> correct_response q (option_ids rnd n (keys (options q)) []) =
         Element (ustr_of ''correctResponse'') [] [] [Element (ustr_of ''value'') [] i []]
     \<and> map_of (options q) (answer q) = Some v
     \<and> Element (ustr_of ''simpleChoice'') [(ustr_of ''identifier'', i)] v [] \<in> set choices"
proof -
  let ?ids = "option_ids rnd n (keys (options q)) []"
  from assms(2) obtain choices where
    c: "simple_choices (options q) ?ids (sort (keys (options q))) = Inr choices"
    by (auto simp add: item_element_def Let_def split: sum.splits)
  have "answer q \<in> set (sort (keys (options q)))"
    using assms(1) by (simp add: invariant_def dict_in_def)
  from simple_choices_member [OF c this] obtain v i where
    "map_of (options q) (answer q) = Some v" "map_of ?ids (answer q) = Some i"
    "Element (ustr_of ''simpleChoice'') [(ustr_of ''identifier'', i)] v [] \<in> set choices"
    by blast
  then show ?thesis using c by (simp add: correct_response_def)
qed

section \<open>The package builder\<close>

lemma decimal_digits: "\<forall>c\<in>set (decimal n). 48 \<le> c \<and> c \<le> 57"
proof (induction n rule: decimal.induct)
  case (1 n)
  show ?case
  proof (cases "n < 10")
    case True
    then show ?thesis by (simp add: decimal.simps [of n])
  next
    case False
    have "n mod 10 < 10" by simp
    then have "48 + n mod 10 \<le> 57" by linarith
    then show ?thesis using False 1 by (simp add: decimal.simps [of n])
  qed
qed

lemma decimal_value: "foldl (\<lambda>a c. 10 * a + (c - 48)) 0 (decimal n) = n"
proof (induction n rule: decimal.induct)
  case (1 n)
  show ?case
  proof (cases "n < 10")
    case True
    then show ?thesis by (simp add: decimal.simps [of n])
  next
    case False
    then show ?thesis using 1 by (simp add: decimal.simps [of n])
  qed
qed

lemma zeros_value: "foldl (\<lambda>a c. 10 * a + (c - 48)) 0 (replicate k (48::nat)) = 0"
  by (induction k) simp_all

lemma format_03d_value: "foldl (\<lambda>a c. 10 * a + (c - 48)) 0 (format_03d n) = n"
  by (simp add: format_03d_def zeros_value decimal_value)

lemma format_03d_inj: "format_03d a = format_03d b \<Longrightarrow> a = b"
proof -
  assume "format_03d a = format_03d b"
  then have "foldl (\<lambda>a c. 10 * a + (c - 48)) 0 (format_03d a) =
             foldl (\<lambda>a c. 10 * a + (c - 48)) 0 (format_03d b)"
    by (rule arg_cong)
  then show "a = b" by (simp only: format_03d_value)
qed

lemma format_03d_digits: "\<forall>c\<in>set (format_03d n). 48 \<le> c \<and> c \<le> 57"
  using decimal_digits [of n] by (auto simp add: format_03d_def)



lemma append_sep_eq:
  assumes "xs @ c # r = ys @ c # r'" and "c \<notin> set xs" and "c \<notin> set ys"
  shows "xs = ys"
proof -
  have "takeWhile (\<lambda>x. x \<noteq> c) (xs @ c # r) = xs"
    using assms(2) by (induction xs) auto
  moreover have "takeWhile (\<lambda>x. x \<noteq> c) (ys @ c # r') = ys"
    using assms(3) by (induction ys) auto
  ultimately show ?thesis using assms(1) by simp
qed

lemma question_filename_inj:
  assumes "question_filename i a = question_filename j b"
  shows "i = j"
proof -
  have "format_03d i @ 95 # (a @ ustr_of ''.xml'') = format_03d j @ 95 # (b @ ustr_of ''.xml'')"
    using assms by (simp add: question_filename_def ustr_of_def)
  moreover have "95 \<notin> set (format_03d i)" "95 \<notin> set (format_03d j)"
    using format_03d_digits by fastforce+
  ultimately have "format_03d i = format_03d j" by (rule append_sep_eq)
  then show ?thesis by (rule format_03d_inj)
qed

lemma question_filename_not_manifest: "question_filename i a \<noteq> ustr_of ''imsmanifest.xml''"
  by (simp add: question_filename_def ustr_of_def)

lemma question_filename_ok:
  "list_all xml_Char a \<Longrightarrow> list_all xml_Char (question_filename i a)"
  using format_03d_digits [of i]
  by (auto simp add: question_filename_def ustr_of_def xml_Char_numeral list_all_iff xml_Char_def)

lemma foldl_dict_set_fresh:
  assumes "distinct (map fst files)" and "fst ` set files \<inter> fst ` set dir = {}"
  shows "foldl (\<lambda>d f. dict_set d (fst f) (snd f)) dir files = dir @ files"
  using assms
proof (induction files arbitrary: dir)
  case Nil
  show ?case by simp
next
  case (Cons f files)
  have "fst f \<notin> fst ` set dir" using Cons.prems(2) by auto
  then have st: "dict_set dir (fst f) (snd f) = dir @ [f]" by (simp add: dict_set_new)
  have "fst ` set files \<inter> fst ` set (dir @ [f]) = {}"
    using Cons.prems by auto
  then show ?case using Cons.IH [of "dir @ [f]"] Cons.prems(1) st by simp
qed

lemma build_items_ok:
  assumes "\<forall>q\<in>set qs. question_chars_ok q" and "\<forall>k. list_all xml_Char (rnd k)"
  shows "\<exists>items n'.
     build_items rnd n index qs dir res =
       Inr (foldl (\<lambda>d f. dict_set d (fst f) (snd f)) dir
              (map (\<lambda>(i, iid, root). (question_filename i iid, Pretty_of (ET_tostring root)))
                 (enumerate index items)),
            res @ map (\<lambda>(i, iid, root). (iid, question_filename i iid)) (enumerate index items),
            n')
     \<and> list_all2 (\<lambda>q (iid, root). list_all xml_Char iid \<and>
          (\<exists>k. iid = ustr_of ''ITEM_'' @ rnd k \<and> item_element rnd (k + 1) q iid = Inr root))
          qs items"
  using assms(1)
proof (induction qs arbitrary: n index dir res)
  case Nil
  show ?case by simp
next
  case (Cons q qs)
  let ?id = "ustr_of ''ITEM_'' @ rnd n"
  have idok: "list_all xml_Char ?id"
    using assms(2) by (simp add: ustr_of_def xml_Char_numeral)
  have "question_chars_ok q" using Cons.prems by simp
  from generate_item_xml_ok [OF this assms(2) idok, of "n + 1"] obtain root where
    r: "item_element rnd (n + 1) q ?id = Inr root"
      "generate_item_xml rnd (n + 1) q ?id =
         Inr (Pretty_of (ET_tostring root), n + 1 + length (keys (options q)))"
    by blast
  let ?dir = "dict_set dir (question_filename index ?id) (Pretty_of (ET_tostring root))"
  let ?res = "res @ [(?id, question_filename index ?id)]"
  have "\<forall>q\<in>set qs. question_chars_ok q" using Cons.prems by simp
  from Cons.IH [OF this, of "n + 1 + length (keys (options q))" "index + 1" ?dir ?res]
  obtain items n' where
    b: "build_items rnd (n + 1 + length (keys (options q))) (index + 1) qs ?dir ?res =
       Inr (foldl (\<lambda>d f. dict_set d (fst f) (snd f)) ?dir
              (map (\<lambda>(i, iid, root). (question_filename i iid, Pretty_of (ET_tostring root)))
                 (enumerate (index + 1) items)),
            ?res @ map (\<lambda>(i, iid, root). (iid, question_filename i iid)) (enumerate (index + 1) items),
            n')"
    and l: "list_all2 (\<lambda>q (iid, root). list_all xml_Char iid \<and>
          (\<exists>k. iid = ustr_of ''ITEM_'' @ rnd k \<and> item_element rnd (k + 1) q iid = Inr root))
          qs items"
    by blast
  show ?case
    using b l r idok
    by (intro exI [of _ "(?id, root) # items"] exI [of _ n']) (auto simp add: Let_def)
qed

lemma enumerate_names_distinct:
  "distinct (map (\<lambda>(i, iid, root). question_filename i iid) (enumerate index items))"
proof -
  have d: "distinct (map fst (enumerate index items))"
    by (simp add: map_fst_enumerate)
  have "inj_on (\<lambda>(i, iid, root). question_filename i iid) (set (enumerate index items))"
  proof (rule inj_onI)
    fix x y
    assume x: "x \<in> set (enumerate index items)" and y: "y \<in> set (enumerate index items)"
      and e: "(case x of (i, iid, root) \<Rightarrow> question_filename i iid) =
              (case y of (i, iid, root) \<Rightarrow> question_filename i iid)"
    obtain i a where xx: "x = (i, a)" by (cases x) auto
    obtain j b where yy: "y = (j, b)" by (cases y) auto
    have "i = j" using e question_filename_inj [of i "fst a" j "fst b"]
      by (simp add: xx yy split: prod.splits)
    moreover then have "a = b" using eq_key_imp_eq_value [OF d] x y xx yy by auto
    ultimately show "x = y" by (simp add: xx yy)
  qed
  then show ?thesis using distinct_enumerate [of index items] by (simp add: distinct_map)
qed


lemma list_all2_rightD: "list_all2 P xs ys \<Longrightarrow> y \<in> set ys \<Longrightarrow> \<exists>x\<in>set xs. P x y"
  by (induction rule: list_all2_induct) auto

lemma enumerate_snd_in: "(i, a) \<in> set (enumerate n xs) \<Longrightarrow> a \<in> set xs"
  by (auto simp add: enumerate_eq_zip dest: set_zip_rightD)

lemma build_package_entries:
  assumes "\<forall>q\<in>set qs. question_chars_ok q" and "\<forall>k. list_all xml_Char (rnd k)"
  shows "\<exists>items n'.
     build_package fs rnd n qs output_filename =
       (case create_zip_package fs
         (map (\<lambda>(i, iid, root). (question_filename i iid, Pretty_of (ET_tostring root)))
            (enumerate 1 items) @
          [(ustr_of ''imsmanifest.xml'',
            Pretty_of (ET_tostring (manifest_element rnd n'
              (map (\<lambda>(i, iid, root). (iid, question_filename i iid)) (enumerate 1 items)))))])
         output_filename of
          Inl e \<Rightarrow> Inl e
        | Inr pkg \<Rightarrow> Inr (archive_name pkg, cleanup_temp_directory pkg))
     \<and> list_all2 (\<lambda>q (iid, root). list_all xml_Char iid \<and>
          (\<exists>k. iid = ustr_of ''ITEM_'' @ rnd k \<and> item_element rnd (k + 1) q iid = Inr root))
          qs items"
proof -
  from build_items_ok [OF assms, of n 1 "[]" "[]"] obtain items n' where
    b: "build_items rnd n 1 qs [] [] =
       Inr (foldl (\<lambda>d f. dict_set d (fst f) (snd f)) []
              (map (\<lambda>(i, iid, root). (question_filename i iid, Pretty_of (ET_tostring root)))
                 (enumerate 1 items)),
            [] @ map (\<lambda>(i, iid, root). (iid, question_filename i iid)) (enumerate 1 items),
            n')"
    and l: "list_all2 (\<lambda>q (iid, root). list_all xml_Char iid \<and>
          (\<exists>k. iid = ustr_of ''ITEM_'' @ rnd k \<and> item_element rnd (k + 1) q iid = Inr root))
          qs items"
    by blast
  let ?files = "map (\<lambda>(i, iid, root). (question_filename i iid, Pretty_of (ET_tostring root)))
                 (enumerate 1 items)"
  let ?res = "map (\<lambda>(i, iid, root). (iid, question_filename i iid)) (enumerate 1 items)"
  have names: "map fst ?files = map (\<lambda>(i, iid, root). question_filename i iid) (enumerate 1 items)"
    by (simp add: case_prod_beta comp_def)
  have d: "distinct (map fst ?files)"
    unfolding names by (rule enumerate_names_distinct)
  have f: "foldl (\<lambda>d f. dict_set d (fst f) (snd f)) [] ?files = ?files"
    using foldl_dict_set_fresh [OF d, of "[]"] by simp
  have idok: "\<forall>x\<in>set items. list_all xml_Char (fst x)"
    using list_all2_rightD [OF l] by fastforce
  have "\<forall>r\<in>set ?res. list_all xml_Char (fst r) \<and> list_all xml_Char (snd r)"
    using idok by (fastforce dest: enumerate_snd_in intro: question_filename_ok)
  from generate_manifest_ok [OF assms(2) this, of n']
  have m: "generate_manifest rnd n' ?res =
             Inr (Pretty_of (ET_tostring (manifest_element rnd n' ?res)), n' + 1)" .
  have "ustr_of ''imsmanifest.xml'' \<notin> fst ` set ?files"
    by (auto simp add: case_prod_beta question_filename_not_manifest [THEN not_sym])
  then have w: "dict_set ?files (ustr_of ''imsmanifest.xml'')
                  (Pretty_of (ET_tostring (manifest_element rnd n' ?res)))
                = ?files @ [(ustr_of ''imsmanifest.xml'',
                    Pretty_of (ET_tostring (manifest_element rnd n' ?res)))]"
    by (rule dict_set_new)
  have "build_package fs rnd n qs output_filename =
       (case create_zip_package fs
         (?files @ [(ustr_of ''imsmanifest.xml'',
                    Pretty_of (ET_tostring (manifest_element rnd n' ?res)))])
         output_filename of
          Inl e \<Rightarrow> Inl e
        | Inr pkg \<Rightarrow> Inr (archive_name pkg, cleanup_temp_directory pkg))"
    unfolding build_package_def b by (simp only: sum.case prod.case append_Nil f m w)
  then show ?thesis using l by blast
qed


lemma build_package_open_raises:
  assumes "\<forall>q\<in>set qs. question_chars_ok q" and "\<forall>k. list_all xml_Char (rnd k)"
    and "zip_open fs (zip_filename output_filename) = Open_raises e"
  shows "build_package fs rnd n qs output_filename = Inl e"
proof -
  from build_package_entries [OF assms(1,2), of fs n output_filename]
  show ?thesis using assms(3) by (auto simp add: create_zip_package_def Let_def)
qed

lemma build_package_inside_staging:
  assumes "\<forall>q\<in>set qs. question_chars_ok q" and "\<forall>k. list_all xml_Char (rnd k)"
    and "zip_open fs (zip_filename output_filename) = Inside_staging entry"
  shows "build_package fs rnd n qs output_filename =
     (if self_copy_ends fs then Inr (zip_filename output_filename, None)
      else Inl OtherException)"
proof -
  from build_package_entries [OF assms(1,2), of fs n output_filename]
  show ?thesis
    using assms(3)
    by (auto simp add: create_zip_package_def cleanup_temp_directory_def Let_def)
qed

lemma create_zip_package_inside:
  assumes "zip_open fs (zip_filename output_filename) = Inside_staging entry"
    and "self_copy_ends fs" and "entry \<notin> fst ` set temp_dir"
  shows "\<exists>pkg. create_zip_package fs temp_dir output_filename = Inr pkg
     \<and> entries pkg = map (\<lambda>(name, xml). (name, Document xml)) temp_dir @ [(entry, Archive_so_far)]
     \<and> length (entries pkg) = length temp_dir + 1
     \<and> cleanup_temp_directory pkg = None"
proof -
  have "entry \<notin> fst ` set (map (\<lambda>(name, xml). (name, Document xml)) temp_dir)"
    using assms(3) by (auto simp add: case_prod_beta image_iff)
  then have "dict_set (map (\<lambda>(name, xml). (name, Document xml)) temp_dir) entry Archive_so_far
             = map (\<lambda>(name, xml). (name, Document xml)) temp_dir @ [(entry, Archive_so_far)]"
    by (rule dict_set_new)
  then show ?thesis
    using assms(1,2) by (simp add: create_zip_package_def cleanup_temp_directory_def Let_def)
qed



text \<open>The definitions that evaluate the generator and the builder on a concrete input.\<close>

lemmas generator_eval =
  generate_item_xml_def item_element_def
  correct_response_def response_processing_def safe_title_def slice_to_def placeholder_def
  qti_ns_def imscp_ns_def keys_def attrib_tostring_def escape_attrib_def
  escape_attrib_char_def escape_cdata_def escape_cdata_char_def reparse_pretty_def
  surrogate_def xml_Char_def ustr_of_def

lemma sample_uuid_ok: "\<forall>k. list_all xml_Char (ustr_of ''0123456789abcdef0123456789abcdef'')"
  by (simp add: ustr_of_def xml_Char_numeral)

lemma sample_question_ok:
  "question_chars_ok \<lparr>qtext = ustr_of ''Q?'', options = [([66], [121]), ([65], [120])], answer = [66]\<rparr>"
  by (simp add: question_chars_ok_def ustr_of_def xml_Char_numeral)

text \<open>
  A disk where \<open>out.zip\<close> is created in \<open>output_dir\<close>, \<open>temp_qti_build/out.zip\<close> in the
  staging directory, and no other directory exists: the archive written inside the
  staging directory is gone when \<open>build_package\<close> returns its path, and a missing
  parent directory makes it raise.
\<close>

lemma build_package_places_example:
  fixes fs :: disk
  defines "fs \<equiv> \<lparr>zip_open = (\<lambda>name.
                 if name = ustr_of ''out.zip'' then Outside_staging
                 else if name = ustr_of ''temp_qti_build/out.zip''
                 then Inside_staging (ustr_of ''out.zip'')
                 else Open_raises FileNotFoundError),
               self_copy_ends = True\<rparr>"
  shows "build_package fs (\<lambda>k. ustr_of ''0123456789abcdef0123456789abcdef'') 0
           [\<lparr>qtext = ustr_of ''Q?'', options = [([66], [121]), ([65], [120])], answer = [66]\<rparr>]
           (ustr_of ''temp_qti_build/out'')
         = Inr (ustr_of ''temp_qti_build/out.zip'', None)"
    and "build_package fs (\<lambda>k. ustr_of ''0123456789abcdef0123456789abcdef'') 0
           [\<lparr>qtext = ustr_of ''Q?'', options = [([66], [121]), ([65], [120])], answer = [66]\<rparr>]
           (ustr_of ''nodir/out.zip'')
         = Inl FileNotFoundError"
proof -
  let ?R = "\<lambda>k::nat. ustr_of ''0123456789abcdef0123456789abcdef''"
  let ?Q = "\<lparr>qtext = ustr_of ''Q?'', options = [([66], [121]), ([65], [120])], answer = [66]\<rparr>"
  have h1: "\<forall>q\<in>set [?Q]. question_chars_ok q" using sample_question_ok by simp
  have h2: "\<forall>k. list_all xml_Char (?R k)" using sample_uuid_ok by simp
  have z1: "zip_filename (ustr_of ''temp_qti_build/out'') = ustr_of ''temp_qti_build/out.zip''"
    by (simp add: zip_filename_def endswith_def ustr_of_def)
  have z2: "zip_filename (ustr_of ''nodir/out.zip'') = ustr_of ''nodir/out.zip''"
    by (simp add: zip_filename_def endswith_def ustr_of_def)
  have p1: "zip_open fs (zip_filename (ustr_of ''temp_qti_build/out''))
              = Inside_staging (ustr_of ''out.zip'')"
    unfolding z1 by (simp add: fs_def ustr_of_def)
  have p2: "zip_open fs (zip_filename (ustr_of ''nodir/out.zip'')) = Open_raises FileNotFoundError"
    unfolding z2 by (simp add: fs_def ustr_of_def)
  show "build_package fs ?R 0 [?Q] (ustr_of ''temp_qti_build/out'')
         = Inr (ustr_of ''temp_qti_build/out.zip'', None)"
    using build_package_inside_staging [OF h1 h2 p1, of 0] by (simp add: z1 fs_def)
  show "build_package fs ?R 0 [?Q] (ustr_of ''nodir/out.zip'') = Inl FileNotFoundError"
    using build_package_open_raises [OF h1 h2 p2, of 0] by simp
qed

section \<open>The claims of the specification\<close>

text \<open>
  Claim C1. A single block: the non-blank stripped lines of the file are one or more lines
  that match neither pattern, then \<open>N\<close> option lines with distinct letters, then one ANSWER
  line whose letter, in upper case, is one of those letters. \<open>parse_file\<close> returns exactly
  one question; its answer is the upper-case letter of the ANSWER line, its options are
  the \<open>N\<close> recorded pairs with \<open>N\<close> distinct keys, and its text is the question lines
  joined by spaces.
\<close>

theorem single_block_parsed:
  assumes "path_exists w p" and "open_readlines w p UTF8 = Lines raw"
    and "filter (\<lambda>l. l \<noteq> []) (map strip raw) = qlines @ olines @ [aline]"
    and "qlines \<noteq> []"
    and "\<forall>l\<in>set qlines. answer_pattern_match l = None \<and> option_pattern_match l = None"
    and "map option_pattern_match olines = map Some kvs"
    and "distinct (map fst kvs)"
    and "answer_pattern_match aline = Some g"
    and "upper g \<in> set (map fst kvs)"
  shows "fst (parse_file w p) =
           Inr [\<lparr>qtext = strip (hd qlines @ concat (map ((#) 32) (tl qlines))),
                 options = kvs, answer = upper g\<rparr>]
       \<and> length kvs = length olines \<and> length (keys kvs) = card (set (keys kvs))"
proof -
  obtain q1 qrest where ql: "qlines = q1 # qrest" using assms(4) by (cases qlines) auto
  have mem: "set qlines \<subseteq> set (filter (\<lambda>l. l \<noteq> []) (map strip raw))"
    unfolding assms(3) by auto
  have nb: "\<forall>l\<in>set qlines. l \<noteq> []" using mem by auto
  have "q1 \<in> set (map strip raw)" "q1 \<noteq> []" using mem ql by auto
  then obtain r where "q1 = strip r" by auto
  then have s1: "strip q1 = q1" by (simp add: strip_idem)
  let ?T = "q1 @ concat (map ((#) 32) qrest)"
  have "\<exists>c\<in>set q1. \<not> isspace c" using s1 \<open>q1 \<noteq> []\<close> strip_empty_iff [of q1] by auto
  then have sT: "strip ?T \<noteq> []" using strip_nonblank [of _ ?T] by auto
  then have ssT: "strip (strip ?T) \<noteq> []" by (simp add: strip_idem)
  have "cstep ([], [], []) q1 = ([], q1, [])"
    using assms(5) ql \<open>q1 \<noteq> []\<close> by (simp add: cstep_text_line)
  moreover have "foldl cstep ([], q1, []) qrest = ([], ?T, [])"
    using assms(5) nb ql \<open>q1 \<noteq> []\<close> by (intro foldl_cstep_text_lines) auto
  ultimately have a: "foldl cstep ([], [], []) qlines = ([], ?T, [])"
    by (simp add: ql)
  have b: "foldl cstep ([], ?T, []) olines = ([], ?T, kvs)"
    using foldl_cstep_option_lines [OF assms(6,7), of "[]" "[]" ?T] by simp
  have kn: "kvs \<noteq> []" using assms(9) by auto
  have "Question_init (strip ?T) kvs (upper g) =
          Inr \<lparr>qtext = strip ?T, options = kvs, answer = upper g\<rparr>"
    using ssT kn assms(9) by (simp add: Question_init_def dict_in_def keys_def)
  moreover have "aline \<noteq> []" using assms(8) answer_match_not_blank by auto
  ultimately have c: "cstep ([], ?T, kvs) aline =
          ([\<lparr>qtext = strip ?T, options = kvs, answer = upper g\<rparr>], [], [])"
    using assms(8) kn \<open>q1 \<noteq> []\<close> by (simp add: cstep.simps)
  have "parse_lines (map strip raw) = fst (foldl cstep ([], [], []) (qlines @ olines @ [aline]))"
    using foldl_cstep_filter_blank [of "([], [], [])" "map strip raw"] assms(3)
    by (simp add: parse_lines_core)
  also have "\<dots> = [\<lparr>qtext = strip ?T, options = kvs, answer = upper g\<rparr>]"
    by (simp add: a b c)
  finally have 1: "fst (parse_file w p) = Inr [\<lparr>qtext = strip ?T, options = kvs, answer = upper g\<rparr>]"
    using parse_file_utf8 [OF assms(1,2)] by simp
  have 2: "length kvs = length olines"
    using arg_cong [OF assms(6), of length] by simp
  have 3: "length (keys kvs) = card (set (keys kvs))"
    unfolding keys_def using distinct_card [OF assms(7)] by simp
  show ?thesis using 1 2 3 by (simp add: ql)
qed

theorem single_block_parsed_witness:
  "fst (parse_file \<lparr>path_exists = (\<lambda>_. True),
         open_readlines = (\<lambda>_ _. Lines [ustr_of ''Q?'' @ [10], ustr_of ''A) x'' @ [10],
           ustr_of ''B) y'' @ [10], ustr_of ''answer: b''])\<rparr> [])
     = Inr [\<lparr>qtext = ustr_of ''Q?'', options = [([65], [120]), ([66], [121])], answer = [66]\<rparr>]
   \<and> answer_pattern_match (ustr_of ''answer: b'') = Some [98] \<and> upper [98] = [66]
   \<and> map option_pattern_match [ustr_of ''A) x'', ustr_of ''B) y'']
        = map Some [([65], [120]), ([66], [121])]"
  using single_block_parsed [of "\<lparr>path_exists = (\<lambda>_. True),
         open_readlines = (\<lambda>_ _. Lines [ustr_of ''Q?'' @ [10], ustr_of ''A) x'' @ [10],
           ustr_of ''B) y'' @ [10], ustr_of ''answer: b''])\<rparr>" "[]"
      "[ustr_of ''Q?'' @ [10], ustr_of ''A) x'' @ [10], ustr_of ''B) y'' @ [10],
        ustr_of ''answer: b'']"
      "[ustr_of ''Q?'']" "[ustr_of ''A) x'', ustr_of ''B) y'']" "ustr_of ''answer: b''"
      "[([65], [120]), ([66], [121])]" "[98]"]
  by (simp add: parser_eval)




text \<open>
  Claim C3 at a question whose text holds the control character U+0001. A file with the
  line \<open>a\<close> U+0001 gives that question, which satisfies the invariant of \<open>Question\<close>;
  \<open>ET.tostring\<close> writes the character as it is, the reading back by
  \<open>minidom.parseString\<close> raises \<open>ExpatError\<close>, and so do \<open>generate_item_xml\<close> and
  \<open>build_package\<close>, whatever the disk: no XML is produced for this valid question.
\<close>

theorem item_with_control_character_raises:
  "fst (parse_file \<lparr>path_exists = (\<lambda>_. True),
         open_readlines = (\<lambda>_ _. Lines [[97, 1, 10], ustr_of ''A) x'' @ [10],
                                          ustr_of ''ANSWER: A'' @ [10]])\<rparr> [])
     = Inr [\<lparr>qtext = [97, 1], options = [([65], [120])], answer = [65]\<rparr>]
   \<and> invariant \<lparr>qtext = [97, 1], options = [([65], [120])], answer = [65]\<rparr>
   \<and> generate_item_xml (\<lambda>k. ustr_of ''0123456789abcdef0123456789abcdef'') 1
        \<lparr>qtext = [97, 1], options = [([65], [120])], answer = [65]\<rparr>
        (ustr_of ''ITEM_0123456789abcdef0123456789abcdef'')
     = Inl ExpatError
   \<and> (\<forall>fs. build_package fs (\<lambda>k. ustr_of ''0123456789abcdef0123456789abcdef'') 0
        [\<lparr>qtext = [97, 1], options = [([65], [120])], answer = [65]\<rparr>] (ustr_of ''out'')
     = Inl ExpatError)"
proof -
  have p: "fst (parse_file \<lparr>path_exists = (\<lambda>_. True),
         open_readlines = (\<lambda>_ _. Lines [[97, 1, 10], ustr_of ''A) x'' @ [10],
                                          ustr_of ''ANSWER: A'' @ [10]])\<rparr> [])
     = Inr [\<lparr>qtext = [97, 1], options = [([65], [120])], answer = [65]\<rparr>]"
    by (simp add: parser_eval)
  have i: "invariant \<lparr>qtext = [97, 1], options = [([65], [120])], answer = [65]\<rparr>"
    by (simp add: invariant_def strip_def isspace_def dict_in_def keys_def)
  have g: "generate_item_xml (\<lambda>k. ustr_of ''0123456789abcdef0123456789abcdef'') 1
        \<lparr>qtext = [97, 1], options = [([65], [120])], answer = [65]\<rparr>
        (ustr_of ''ITEM_0123456789abcdef0123456789abcdef'')
     = Inl ExpatError"
    by (simp add: generator_eval)
  have "ustr_of ''ITEM_'' @ ustr_of ''0123456789abcdef0123456789abcdef''
        = ustr_of ''ITEM_0123456789abcdef0123456789abcdef''"
    by (simp add: ustr_of_def)
  then have b: "\<forall>fs. build_package fs (\<lambda>k. ustr_of ''0123456789abcdef0123456789abcdef'') 0
        [\<lparr>qtext = [97, 1], options = [([65], [120])], answer = [65]\<rparr>] (ustr_of ''out'')
     = Inl ExpatError"
    using g by (simp add: build_package_def Let_def)
  show ?thesis using p i g b by simp
qed

text \<open>
  Claim C4. An ANSWER line met with non-empty accumulated text and at least one
  accumulated option, whose letter is not among those options, adds no record: the
  iteration logs the construction error and resets the accumulated text and options.
  \<open>parse_file\<close> then returns the records of the lines before that line followed by the
  records the lines after it give when parsed on their own.
\<close>

theorem unmatched_answer_block_dropped:
  assumes "path_exists w p" and "open_readlines w p UTF8 = Lines raw"
    and "map strip raw = pre @ aline # post"
    and "answer_pattern_match aline = Some g"
    and "current_question_text (scan (init []) pre) \<noteq> []"
    and "current_options (scan (init []) pre) \<noteq> []"
    and "\<not> dict_in (upper g) (current_options (scan (init []) pre))"
  shows "fst (parse_file w p) = Inr (parse_lines pre @ parse_lines post)
       \<and> (\<exists>e. step (scan (init []) pre) aline =
            (scan (init []) pre)\<lparr>line_number := length pre + 1,
               log := log (scan (init []) pre) @ [(ERROR, Question_error (length pre + 1) e)],
               current_question_text := [], current_options := []\<rparr>)
       \<and> questions (step (scan (init []) pre) aline) = parse_lines pre
       \<and> current_question_text (step (scan (init []) pre) aline) = []
       \<and> current_options (step (scan (init []) pre) aline) = []"
proof -
  let ?s = "scan (init []) pre"
  obtain e where st: "step ?s aline =
     ?s\<lparr>line_number := line_number ?s + 1,
       log := log ?s @ [(ERROR, Question_error (line_number ?s + 1) e)],
       current_question_text := [], current_options := []\<rparr>"
    using step_rejected_answer [OF assms(4-7)] by blast
  have ln: "line_number ?s = length pre"
    by (simp add: line_number_scan init_def)
  have c: "core (step ?s aline) = (parse_lines pre, [], [])"
    unfolding st by (simp add: core_def questions_scan_init)
  have "scan (init []) (pre @ aline # post) = scan (step ?s aline) post"
    by (simp add: scan_def)
  then have "core (scan (init []) (pre @ aline # post)) = foldl cstep (parse_lines pre, [], []) post"
    by (simp add: scan_core c)
  then have "fst (core (scan (init []) (pre @ aline # post))) = parse_lines pre @ parse_lines post"
    by (simp add: parse_lines_from_reset)
  then have "parse_lines (pre @ aline # post) = parse_lines pre @ parse_lines post"
    by (simp add: questions_scan_init [symmetric, of _ "[]"] core_def)
  then have 1: "fst (parse_file w p) = Inr (parse_lines pre @ parse_lines post)"
    using parse_file_utf8 [OF assms(1,2)] assms(3) by simp
  have 2: "questions (step ?s aline) = parse_lines pre"
    "current_question_text (step ?s aline) = []" "current_options (step ?s aline) = []"
    using c by (simp_all add: core_def)
  show ?thesis using 1 2 st ln by auto
qed

theorem unmatched_answer_block_witness:
  "fst (parse_file \<lparr>path_exists = (\<lambda>_. True),
         open_readlines = (\<lambda>_ _. Lines [ustr_of ''Q?'' @ [10], ustr_of ''A) x'' @ [10],
           ustr_of ''ANSWER: A'' @ [10], [10], ustr_of ''R?'' @ [10], ustr_of ''A) y'' @ [10],
           ustr_of ''ANSWER: C'' @ [10], [10], ustr_of ''S?'' @ [10], ustr_of ''B. z'' @ [10],
           ustr_of ''answer: b''])\<rparr> [])
     = Inr [\<lparr>qtext = ustr_of ''Q?'', options = [([65], [120])], answer = [65]\<rparr>,
            \<lparr>qtext = ustr_of ''S?'', options = [([66], [122])], answer = [66]\<rparr>]
   \<and> answer_pattern_match (ustr_of ''ANSWER: C'') = Some [67]
   \<and> current_options (scan (init [])
         [ustr_of ''Q?'', ustr_of ''A) x'', ustr_of ''ANSWER: A'', [], ustr_of ''R?'',
          ustr_of ''A) y'']) = [([65], [121])]
   \<and> parse_lines [ustr_of ''Q?'', ustr_of ''A) x'', ustr_of ''ANSWER: A'', [], ustr_of ''R?'',
          ustr_of ''A) y''] = [\<lparr>qtext = ustr_of ''Q?'', options = [([65], [120])], answer = [65]\<rparr>]
   \<and> parse_lines [[], ustr_of ''S?'', ustr_of ''B. z'', ustr_of ''answer: b'']
        = [\<lparr>qtext = ustr_of ''S?'', options = [([66], [122])], answer = [66]\<rparr>]"
  using unmatched_answer_block_dropped [of
      "\<lparr>path_exists = (\<lambda>_. True),
         open_readlines = (\<lambda>_ _. Lines [ustr_of ''Q?'' @ [10], ustr_of ''A) x'' @ [10],
           ustr_of ''ANSWER: A'' @ [10], [10], ustr_of ''R?'' @ [10], ustr_of ''A) y'' @ [10],
           ustr_of ''ANSWER: C'' @ [10], [10], ustr_of ''S?'' @ [10], ustr_of ''B. z'' @ [10],
           ustr_of ''answer: b''])\<rparr>" "[]"
      "[ustr_of ''Q?'' @ [10], ustr_of ''A) x'' @ [10],
           ustr_of ''ANSWER: A'' @ [10], [10], ustr_of ''R?'' @ [10], ustr_of ''A) y'' @ [10],
           ustr_of ''ANSWER: C'' @ [10], [10], ustr_of ''S?'' @ [10], ustr_of ''B. z'' @ [10],
           ustr_of ''answer: b'']"
      "[ustr_of ''Q?'', ustr_of ''A) x'', ustr_of ''ANSWER: A'', [], ustr_of ''R?'',
          ustr_of ''A) y'']"
      "ustr_of ''ANSWER: C''"
      "[[], ustr_of ''S?'', ustr_of ''B. z'', ustr_of ''answer: b'']"
      "[67]"]
  by (simp add: parser_eval)

text \<open>
  Claim C5. An ANSWER line met while the accumulated question text is empty, or while no
  option has been accumulated, is discarded with a warning: the iteration only advances
  the line counter and logs the warning, and the questions, the accumulated text and the
  accumulated options are what they were.
\<close>

theorem answer_line_discarded_without_state_change:
  assumes "answer_pattern_match line = Some g"
    and "current_question_text s = [] \<or> current_options s = []"
  shows "step s line =
           s\<lparr>line_number := line_number s + 1,
             log := log s @ [(WARNING,
               if current_question_text s = [] then Answer_without_question (line_number s + 1)
               else Answer_without_options (line_number s + 1))]\<rparr>
         \<and> questions (step s line) = questions s
         \<and> current_question_text (step s line) = current_question_text s
         \<and> current_options (step s line) = current_options s"
proof -
  from assms(1) have "line \<noteq> []"
    using answer_match_not_blank by auto
  with assms show ?thesis
    by (auto simp add: step_def Let_def)
qed

theorem answer_line_discarded_witness:
  "answer_pattern_match (ustr_of ''answer: c'') = Some [99]
   \<and> step (init []) (ustr_of ''answer: c'') =
       (init [])\<lparr>line_number := 1, log := [(WARNING, Answer_without_question 1)]\<rparr>"
  using answer_line_discarded_without_state_change [of "ustr_of ''answer: c''" "[99]" "init []"]
  by (simp add: answer_pattern_match_def ustr_of_def literal_ignorecase_def class_AZ_def
      class_AZ_ignorecase_def isspace_def init_def)

text \<open>
  Claim C6, as stated: validation at construction is the single gate and no instance can
  violate the invariant later, because the type is immutable. The dataclass is not
  frozen: a field of a constructed instance can be assigned, and the instance then
  violates the invariant.
\<close>

theorem question_mutable_counterexample:
  "Question_init (ustr_of ''Q'') [([65], [120])] [65]
     = Inr \<lparr>qtext = ustr_of ''Q'', options = [([65], [120])], answer = [65]\<rparr>
   \<and> \<not> invariant (set_qtext \<lparr>qtext = ustr_of ''Q'', options = [([65], [120])], answer = [65]\<rparr> [])"
  by (simp add: Question_init_def invariant_def set_qtext_def strip_def dict_in_def keys_def
      ustr_of_def isspace_def)

text \<open>
  Claim C6, amended. A \<open>Question\<close> satisfies non-empty text, non-empty options and answer
  among the options when its construction returns: the construction returns exactly when
  the three conditions hold, with the fields as given. Every question \<open>parse_file\<close>
  returns satisfies them.
\<close>

theorem question_valid_at_construction:
  "(Question_init t os a = Inr q \<longrightarrow> invariant q \<and> q = \<lparr>qtext = t, options = os, answer = a\<rparr>)
   \<and> (invariant \<lparr>qtext = t, options = os, answer = a\<rparr> \<longrightarrow>
        Question_init t os a = Inr \<lparr>qtext = t, options = os, answer = a\<rparr>)
   \<and> (fst (parse_file w p) = Inr qs \<and> q' \<in> set qs \<longrightarrow> invariant q')"
  using Question_init_invariant [of t os a q] Question_init_Inr [of t os a]
    parse_file_Inr [of w p qs] parse_lines_invariant [of q']
  by (auto simp add: invariant_def)

theorem question_valid_at_construction_witness:
  "Question_init (ustr_of ''Q'') [([65], [120])] [65]
     = Inr \<lparr>qtext = ustr_of ''Q'', options = [([65], [120])], answer = [65]\<rparr>
   \<and> invariant \<lparr>qtext = ustr_of ''Q'', options = [([65], [120])], answer = [65]\<rparr>
   \<and> fst (parse_file \<lparr>path_exists = (\<lambda>_. True),
         open_readlines = (\<lambda>_ _. Lines [ustr_of ''Q?'' @ [10], ustr_of ''A) x'' @ [10],
                                          ustr_of ''answer: a''])\<rparr> [])
     = Inr [\<lparr>qtext = ustr_of ''Q?'', options = [([65], [120])], answer = [65]\<rparr>]
   \<and> invariant \<lparr>qtext = ustr_of ''Q?'', options = [([65], [120])], answer = [65]\<rparr>"
  using question_valid_at_construction [of "ustr_of ''Q''" "[([65], [120])]" "[65]"
      "\<lparr>qtext = ustr_of ''Q'', options = [([65], [120])], answer = [65]\<rparr>"
      "\<lparr>path_exists = (\<lambda>_. True),
         open_readlines = (\<lambda>_ _. Lines [ustr_of ''Q?'' @ [10], ustr_of ''A) x'' @ [10],
                                          ustr_of ''answer: a''])\<rparr>" "[]"
      "[\<lparr>qtext = ustr_of ''Q?'', options = [([65], [120])], answer = [65]\<rparr>]"
      "\<lparr>qtext = ustr_of ''Q?'', options = [([65], [120])], answer = [65]\<rparr>"]
  by (simp add: parser_eval invariant_def)



text \<open>
  Claim C8. For a maximum length that is not negative (the default is 50), \<open>_safe_title\<close>
  removes every \<open><\<close>, \<open>>\<close>, \<open>&\<close> and double quote from the text; when what is left
  is longer than the maximum it is cut to the maximum and \<open>...\<close> is appended; when nothing
  is left the result is the placeholder; otherwise it is what is left. None of the four
  characters occurs in the result, and the result is never empty.
\<close>

theorem safe_title_strips_truncates_falls_back:
  assumes "0 \<le> n"
  shows "(\<forall>c\<in>set (safe_title txt n). c \<noteq> 60 \<and> c \<noteq> 62 \<and> c \<noteq> 38 \<and> c \<noteq> 34)
       \<and> (int (length (filter (\<lambda>c. c \<notin> {60, 62, 38, 34}) txt)) > n \<longrightarrow>
            safe_title txt n = take (nat n) (filter (\<lambda>c. c \<notin> {60, 62, 38, 34}) txt) @ ustr_of ''...''
            \<and> length (safe_title txt n) = nat n + 3)
       \<and> (filter (\<lambda>c. c \<notin> {60, 62, 38, 34}) txt = [] \<longrightarrow> safe_title txt n = placeholder)
       \<and> (filter (\<lambda>c. c \<notin> {60, 62, 38, 34}) txt \<noteq> [] \<and>
           int (length (filter (\<lambda>c. c \<notin> {60, 62, 38, 34}) txt)) \<le> n \<longrightarrow>
            safe_title txt n = filter (\<lambda>c. c \<notin> {60, 62, 38, 34}) txt)
       \<and> safe_title txt n \<noteq> []"
proof -
  define f where "f = re_sub_unsafe txt"
  have eq: "filter (\<lambda>c. c \<notin> {60, 62, 38, 34}) txt = f"
    by (simp add: f_def re_sub_unsafe_filter class_unsafe_def)
  have dots: "ustr_of ''...'' = [46, 46, 46]" by (simp add: ustr_of_def)
  have sl: "slice_to f n = take (nat n) f" using assms by (simp add: slice_to_def)
  have t: "safe_title txt n =
      (if int (length f) > n then take (nat n) f @ [46, 46, 46]
       else if f = [] then placeholder else f)"
    by (simp add: safe_title_def Let_def f_def [symmetric] sl dots)
  have safe: "\<forall>c\<in>set f. c \<noteq> 60 \<and> c \<noteq> 62 \<and> c \<noteq> 38 \<and> c \<noteq> 34"
    unfolding eq [symmetric] by auto
  have 1: "\<forall>c\<in>set (safe_title txt n). c \<noteq> 60 \<and> c \<noteq> 62 \<and> c \<noteq> 38 \<and> c \<noteq> 34"
    unfolding t using safe placeholder_safe
    by (auto simp add: class_unsafe_def dest: in_set_takeD)
  have 2: "int (length f) > n \<longrightarrow>
            safe_title txt n = take (nat n) f @ ustr_of ''...'' \<and> length (safe_title txt n) = nat n + 3"
    unfolding t dots using assms by auto
  have 3: "f = [] \<longrightarrow> safe_title txt n = placeholder"
    unfolding t using assms by auto
  have 4: "f \<noteq> [] \<and> int (length f) \<le> n \<longrightarrow> safe_title txt n = f"
    unfolding t by auto
  have 5: "safe_title txt n \<noteq> []"
    unfolding t using placeholder_nonempty by auto
  show ?thesis unfolding eq using 1 2 3 4 5 by blast
qed

theorem safe_title_witness:
  "(0::int) \<le> 3
   \<and> safe_title (ustr_of ''a<b>c&d'') 3 = ustr_of ''abc...''
   \<and> safe_title (ustr_of ''<>'') 50 = placeholder
   \<and> safe_title (ustr_of ''a&b'') 50 = ustr_of ''ab''"
  using safe_title_strips_truncates_falls_back [of 3 "ustr_of ''a<b>c&d''"]
    safe_title_strips_truncates_falls_back [of 50 "ustr_of ''<>''"]
    safe_title_strips_truncates_falls_back [of 50 "ustr_of ''a&b''"]
  by (simp add: ustr_of_def)

text \<open>
  Claim C9. When the loop ends with accumulated text or accumulated options, the code
  after it adds no record and logs the warning for an incomplete question, just before
  the closing message. In terms of the input: when the lines after some point hold no
  ANSWER line and at least one of them is not blank, the loop ends in that state, and
  \<open>parse_file\<close> returns what the lines before that point give, the trailing partial
  question adding nothing.
\<close>

theorem trailing_partial_question_discarded:
  "(current_question_text (scan (init lg) lines) \<noteq> [] \<or>
    current_options (scan (init lg) lines) \<noteq> [] \<longrightarrow>
      questions (run_lines lg lines) = questions (scan (init lg) lines) \<and>
      log (run_lines lg lines) =
        log (scan (init lg) lines) @
        [(WARNING, Incomplete_at_end),
         (INFO, Parse_done (length (questions (scan (init lg) lines))))])
   \<and> (path_exists w p \<and> open_readlines w p UTF8 = Lines raw \<and> map strip raw = pre @ tail \<and>
       (\<forall>l\<in>set tail. answer_pattern_match l = None) \<and> (\<exists>l\<in>set tail. l \<noteq> []) \<longrightarrow>
         fst (parse_file w p) = Inr (parse_lines pre) \<and>
         (\<exists>lg'. snd (parse_file w p) =
            lg' @ [(WARNING, Incomplete_at_end), (INFO, Parse_done (length (parse_lines pre)))]) \<and>
         (let s = scan (init [(INFO, Parsing_file)]) (map strip raw) in
            (current_question_text s \<noteq> [] \<or> current_options s \<noteq> []) \<and>
            questions s = parse_lines pre))"
  using finish_open [of "scan (init lg) lines"] trailing_lines_discarded [of w p raw pre tail]
  by (simp add: run_lines_def)

theorem trailing_partial_question_witness:
  "current_question_text (scan (init []) [ustr_of ''Q?'', ustr_of ''ANSWER: A'']) = ustr_of ''Q?''
   \<and> run_lines [] [ustr_of ''Q?'', ustr_of ''ANSWER: A''] =
       \<lparr>questions = [], current_question_text = ustr_of ''Q?'', current_options = [],
         line_number = 2,
         log = [(WARNING, Answer_without_options 2), (WARNING, Incomplete_at_end),
                (INFO, Parse_done 0)]\<rparr>
   \<and> fst (parse_file \<lparr>path_exists = (\<lambda>_. True),
         open_readlines = (\<lambda>_ _. Lines [ustr_of ''Q?'' @ [10], ustr_of ''A) x'' @ [10],
           ustr_of ''ANSWER: A'' @ [10], [10], ustr_of ''R?'' @ [10], ustr_of ''B. y''])\<rparr> [])
     = Inr [\<lparr>qtext = ustr_of ''Q?'', options = [([65], [120])], answer = [65]\<rparr>]
   \<and> (\<exists>lg'. snd (parse_file \<lparr>path_exists = (\<lambda>_. True),
         open_readlines = (\<lambda>_ _. Lines [ustr_of ''Q?'' @ [10], ustr_of ''A) x'' @ [10],
           ustr_of ''ANSWER: A'' @ [10], [10], ustr_of ''R?'' @ [10], ustr_of ''B. y''])\<rparr> [])
        = lg' @ [(WARNING, Incomplete_at_end), (INFO, Parse_done 1)])"
  using trailing_partial_question_discarded [of "[]" "[ustr_of ''Q?'', ustr_of ''ANSWER: A'']"
      "\<lparr>path_exists = (\<lambda>_. True),
         open_readlines = (\<lambda>_ _. Lines [ustr_of ''Q?'' @ [10], ustr_of ''A) x'' @ [10],
           ustr_of ''ANSWER: A'' @ [10], [10], ustr_of ''R?'' @ [10], ustr_of ''B. y''])\<rparr>" "[]"
      "[ustr_of ''Q?'' @ [10], ustr_of ''A) x'' @ [10], ustr_of ''ANSWER: A'' @ [10], [10],
        ustr_of ''R?'' @ [10], ustr_of ''B. y'']"
      "[ustr_of ''Q?'', ustr_of ''A) x'', ustr_of ''ANSWER: A'']"
      "[[], ustr_of ''R?'', ustr_of ''B. y'']"]
  by (simp add: parser_eval)

text \<open>
  Claim C10. Every option value of every question \<open>parse_file\<close> returns is a non-empty
  string. A line matches \<open>option_pattern\<close> only if it is one letter \<open>A\<close>..\<open>Z\<close>, then
  \<open>)\<close> or \<open>.\<close>, then at least one whitespace character, then the non-empty option text
  (and at most a closing newline); an iteration changes the accumulated options only by
  recording such a match or by the reset after an ANSWER line; and a line of a letter and
  a delimiter alone, such as \<open>A)\<close>, is appended to the question text.
\<close>

theorem option_values_nonempty:
  "(fst (parse_file w p) = Inr qs \<and> q \<in> set qs \<and> kv \<in> set (options q) \<longrightarrow> snd kv \<noteq> [])
   \<and> (option_pattern_match line = Some (k, v) \<longrightarrow>
        (\<exists>l d ws e. line = l # d # ws @ v @ e \<and> class_AZ l \<and> class_delim d \<and> k = [l] \<and>
           ws \<noteq> [] \<and> (\<forall>c\<in>set ws. isspace c) \<and> v \<noteq> [] \<and> 10 \<notin> set v \<and> (e = [] \<or> e = [10])))
   \<and> (current_options (step s line) \<noteq> current_options s \<longrightarrow>
        current_options (step s line) = [] \<or>
        (\<exists>k v. option_pattern_match line = Some (k, v) \<and>
           current_options (step s line) = dict_set (current_options s) k v))
   \<and> (class_AZ a \<and> class_delim b \<longrightarrow>
        step s [a, b] =
          s\<lparr>line_number := line_number s + 1,
            current_question_text := (if current_question_text s \<noteq> []
                                      then current_question_text s @ [32, a, b] else [a, b])\<rparr>)"
  using parse_file_Inr [of w p qs] parse_lines_option_values [of q _ kv]
    option_match_shape [of line k v] step_options_change [of s line] step_two_chars [of a b s]
  by blast

theorem option_values_nonempty_witness:
  "fst (parse_file \<lparr>path_exists = (\<lambda>_. True),
         open_readlines = (\<lambda>_ _. Lines [ustr_of ''Q?'' @ [10], ustr_of ''A) x'' @ [10],
                                          ustr_of ''answer: a''])\<rparr> [])
     = Inr [\<lparr>qtext = ustr_of ''Q?'', options = [([65], [120])], answer = [65]\<rparr>]
   \<and> snd ([65], [120::nat]) \<noteq> ([]::ustr)
   \<and> option_pattern_match (ustr_of ''A) x'') = Some ([65], [120])
   \<and> current_options (step (init []) (ustr_of ''A) x'')) = [([65], [120])]
   \<and> class_AZ 65 \<and> class_delim 41
   \<and> step (init []) [65, 41] = (init [])\<lparr>line_number := 1, current_question_text := [65, 41]\<rparr>"
  using option_values_nonempty [of
      "\<lparr>path_exists = (\<lambda>_. True),
         open_readlines = (\<lambda>_ _. Lines [ustr_of ''Q?'' @ [10], ustr_of ''A) x'' @ [10],
                                          ustr_of ''answer: a''])\<rparr>" "[]"
      "[\<lparr>qtext = ustr_of ''Q?'', options = [([65], [120])], answer = [65]\<rparr>]"
      "\<lparr>qtext = ustr_of ''Q?'', options = [([65], [120])], answer = [65]\<rparr>"
      "([65], [120])" "ustr_of ''A) x''" "[65]" "[120]" "init []" 65 41]
  by (simp add: parser_eval)

end
